theory Spec2Isabelle
  imports Complex_Main "HOL-Library.AList" "HOL-Library.Sublist"
begin

section \<open>The .NET namespace churn analyzer (scripts/dotnet-namespace-churn.py)\<close>

text \<open>
  Conventions of the embedding.
  \<^item> A Python \<open>int\<close> is an \<^typ>\<open>int\<close>.
  \<^item> A Python \<open>str\<close> is a \<^typ>\<open>string\<close>; a \<^typ>\<open>char\<close> stands for the code
    point of the same number, so the model covers text whose code points are below 256.
    Glyphs outside that range are written as lists of code points (\<open>nat list\<close>).
  \<^item> A Python \<open>dict\<close> is an association list in insertion order
    (\<^const>\<open>map_of\<close> reads it, \<^const>\<open>AList.update\<close> writes it: an existing key keeps
    its place, a new key goes to the end).
  \<^item> An exception is a value: a function that can raise returns \<open>py_exception + 'a\<close>.
\<close>

datatype py_exception =
    ValueError string
  | RuntimeError string
  | OverflowError string
  | ZeroDivisionError string

subsection \<open>OutputFormatter.get_indicator and the summary line of the console formats\<close>

type_synonym glyph = "nat list"

definition FIRE :: glyph where
  "FIRE = [0x1F525]"

definition WARNING_SIGN :: glyph where
  "WARNING_SIGN = [0x26A0, 0xFE0F]"

definition CHECK_MARK :: glyph where
  "CHECK_MARK = [0x2713]"

definition HOTSPOT_THRESHOLD :: int where
  "HOTSPOT_THRESHOLD = 1000"

definition WARNING_THRESHOLD :: int where
  "WARNING_THRESHOLD = 500"

definition get_indicator :: "int \<Rightarrow> glyph" where
  "get_indicator lines_changed =
     (if lines_changed > HOTSPOT_THRESHOLD then FIRE
      else if lines_changed > WARNING_THRESHOLD then WARNING_SIGN
      else CHECK_MARK)"

text \<open>
  The summary line of \<open>format_enhanced_console\<close> (and of \<open>format_console\<close>) counts with
  generator expressions over the rows; \<open>tot\<close> reads a row's total
  (\<open>m['total']\<close>, or \<open>m['lines_changed']\<close> in the legacy formats):
  \<open>sum(1 for _, m in data if m['total'] > 1000)\<close> and
  \<open>sum(1 for _, m in data if 500 < m['total'] <= 1000)\<close>.
\<close>

definition summary_hotspots :: "('m \<Rightarrow> int) \<Rightarrow> (string \<times> 'm) list \<Rightarrow> int" where
  "summary_hotspots tot data = (\<Sum>(ns, m) \<leftarrow> filter (\<lambda>(ns, m). tot m > 1000) data. 1)"

definition summary_warnings :: "('m \<Rightarrow> int) \<Rightarrow> (string \<times> 'm) list \<Rightarrow> int" where
  "summary_warnings tot data =
     (\<Sum>(ns, m) \<leftarrow> filter (\<lambda>(ns, m). 500 < tot m \<and> tot m \<le> 1000) data. 1)"

subsection \<open>ChurnAggregator.filter_by_threshold and the filter of the enhanced mode\<close>

record file_lines =
  fl_path :: string
  fl_lines :: int

record legacy_metrics =
  lines_changed :: int
  lm_file_count :: int
  lm_files :: "file_lines list"

definition filter_by_threshold ::
  "(string \<times> legacy_metrics) list \<Rightarrow> int \<Rightarrow> (string \<times> legacy_metrics) list" where
  "filter_by_threshold aggregated min_threshold =
     filter (\<lambda>(ns, metrics). lines_changed metrics \<ge> min_threshold) aggregated"

subsection \<open>Binary64 arithmetic of the interpreter\<close>

text \<open>
  \<open>detect_pattern\<close> and \<open>calculate_ownership\<close> compute with Python floats:
  \<open>int / int\<close> is the correctly rounded quotient, \<open>int * float\<close> converts the
  integer (correctly rounded) and multiplies in IEEE 754 binary64, a float literal is the
  double nearest to the decimal, and a comparison of an \<open>int\<close> with a float is exact.
  A finite double is represented by its exact rational value. \<open>round64\<close> rounds a
  rational to the nearest value \<open>m * 2^e\<close> with \<open>|m| < 2^53\<close> and \<open>e \<ge> -1074\<close>, ties
  to the even mantissa (the exponent is not bounded above: \<open>to_double\<close> adds the
  overflow).
\<close>

fun bit_length :: "nat \<Rightarrow> nat" where
  "bit_length n = (if n = 0 then 0 else Suc (bit_length (n div 2)))"

declare bit_length.simps [simp del]

definition floor_log2 :: "rat \<Rightarrow> int" where
  "floor_log2 x =
     (if x \<ge> 1 then int (bit_length (nat \<lfloor>x\<rfloor>)) - 1
      else - int (bit_length (nat (\<lceil>1 / x\<rceil> - 1))))"

definition round_half_even :: "rat \<Rightarrow> int" where
  "round_half_even x =
     (let f = \<lfloor>x\<rfloor>; r = x - of_int f
      in if r < 1 / 2 then f else if r > 1 / 2 then f + 1 else if even f then f else f + 1)"

definition round64 :: "rat \<Rightarrow> rat" where
  "round64 x =
     (if x = 0 then 0
      else let e = max (floor_log2 \<bar>x\<bar>) (- 1022) - 52
           in sgn x * of_int (round_half_even (\<bar>x\<bar> / 2 powi e)) * 2 powi e)"

datatype pyfloat = Finite rat | PosInf | NegInf

definition to_double :: "rat \<Rightarrow> pyfloat" where
  "to_double x =
     (let r = round64 x
      in if r \<ge> 2 ^ 1024 then PosInf else if r \<le> - (2 ^ 1024) then NegInf else Finite r)"

definition float_literal :: "rat \<Rightarrow> rat" where
  "float_literal x = round64 x"

definition int_to_float :: "int \<Rightarrow> py_exception + rat" where
  "int_to_float i =
     (case to_double (of_int i) of
        Finite r \<Rightarrow> Inr r
      | _ \<Rightarrow> Inl (OverflowError ''int too large to convert to float''))"

definition int_truediv :: "int \<Rightarrow> int \<Rightarrow> py_exception + rat" where
  "int_truediv a b =
     (if b = 0 then Inl (ZeroDivisionError ''division by zero'')
      else case to_double (of_int a / of_int b) of
             Finite r \<Rightarrow> Inr r
           | _ \<Rightarrow> Inl (OverflowError ''integer division result too large for a float''))"

definition float_mul :: "rat \<Rightarrow> rat \<Rightarrow> pyfloat" where
  "float_mul x y = to_double (x * y)"

definition int_mul_float :: "int \<Rightarrow> rat \<Rightarrow> py_exception + pyfloat" where
  "int_mul_float i y =
     (case int_to_float i of Inl e \<Rightarrow> Inl e | Inr x \<Rightarrow> Inr (float_mul x y))"

fun int_ge_float :: "int \<Rightarrow> pyfloat \<Rightarrow> bool" where
  "int_ge_float i (Finite r) = (of_int i \<ge> r)"
| "int_ge_float i PosInf = False"
| "int_ge_float i NegInf = True"

subsection \<open>PatternDetector.detect_pattern\<close>

text \<open>
  The conjunction of the churn test is evaluated left to right and stops at the first
  false conjunct, so \<open>additions * 0.8\<close> is computed only when both counts exceed 600, and
  \<open>deletions * 0.8\<close> only when the third conjunct holds.
\<close>

definition detect_pattern :: "int \<Rightarrow> int \<Rightarrow> py_exception + string" where
  "detect_pattern additions deletions =
     (let total = additions + deletions in
      if total = 0 then Inr ''normal''
      else case int_truediv additions total of Inl e \<Rightarrow> Inl e | Inr additions_ratio \<Rightarrow>
           case int_truediv deletions total of Inl e \<Rightarrow> Inl e | Inr deletions_ratio \<Rightarrow>
           if additions_ratio \<ge> float_literal (7 / 10) then Inr ''growth''
           else if deletions_ratio \<ge> float_literal (7 / 10) then Inr ''cleanup''
           else if additions > 600 \<and> deletions > 600 then
             (case int_mul_float additions (float_literal (8 / 10)) of Inl e \<Rightarrow> Inl e | Inr x \<Rightarrow>
              if int_ge_float deletions x then
                (case int_mul_float deletions (float_literal (8 / 10)) of Inl e \<Rightarrow> Inl e | Inr y \<Rightarrow>
                 if int_ge_float additions y then Inr ''churn'' else Inr ''normal'')
              else Inr ''normal'')
           else Inr ''normal'')"

text \<open>
  The rule of the specification (section 4.3), word for word and in exact rational
  arithmetic; "each is at least 80% of the other" is \<open>d \<ge> 0.8 * a\<close> and \<open>a \<ge> 0.8 * d\<close>.
\<close>

definition classify_spec :: "int \<Rightarrow> int \<Rightarrow> string" where
  "classify_spec a d =
     (if a + d = 0 then ''normal''
      else if rat_of_int a / of_int (a + d) \<ge> 7 / 10 then ''growth''
      else if rat_of_int d / of_int (a + d) \<ge> 7 / 10 then ''cleanup''
      else if a > 600 \<and> d > 600 \<and> rat_of_int d \<ge> 8 / 10 * of_int a \<and>
              rat_of_int a \<ge> 8 / 10 * of_int d then ''churn''
      else ''normal'')"

subsection \<open>ChurnAggregator.aggregate_with_details\<close>

record file_detail =
  fd_path :: string
  fd_additions :: int
  fd_deletions :: int
  fd_total :: int

record ns_metrics =
  ns_additions :: int
  ns_deletions :: int
  ns_total :: int
  ns_file_count :: int
  ns_files :: "file_detail list"
  ns_pattern :: string

type_synonym change = "string \<times> int \<times> int \<times> string"

definition new_metrics :: ns_metrics where
  "new_metrics =
     \<lparr>ns_additions = 0, ns_deletions = 0, ns_total = 0, ns_file_count = 0, ns_files = [],
      ns_pattern = ''normal''\<rparr>"

text \<open>One iteration of the first loop.\<close>

fun add_change :: "(string \<times> ns_metrics) list \<Rightarrow> change \<Rightarrow> (string \<times> ns_metrics) list" where
  "add_change result (namespace, additions, deletions, filepath) =
     (let m = (case map_of result namespace of None \<Rightarrow> new_metrics | Some m \<Rightarrow> m)
      in AList.update namespace
           (m\<lparr>ns_additions := ns_additions m + additions,
              ns_deletions := ns_deletions m + deletions,
              ns_total := ns_total m + (additions + deletions),
              ns_file_count := ns_file_count m + 1,
              ns_files := ns_files m @
                [\<lparr>fd_path = filepath, fd_additions = additions, fd_deletions = deletions,
                  fd_total = additions + deletions\<rparr>]\<rparr>)
           result)"

text \<open>
  \<open>list.sort(key=..., reverse=True)\<close> is a stable sort in descending order of the key:
  elements with equal keys keep their order. \<^const>\<open>sort_key\<close> on the negated key is such
  a sort.
\<close>

definition sort_reverse :: "('a \<Rightarrow> int) \<Rightarrow> 'a list \<Rightarrow> 'a list" where
  "sort_reverse key xs = sort_key (\<lambda>x. - key x) xs"

text \<open>The second loop; an exception of \<open>detect_pattern\<close> ends it.\<close>

fun finish_namespaces ::
  "(string \<times> ns_metrics) list \<Rightarrow> py_exception + (string \<times> ns_metrics) list" where
  "finish_namespaces [] = Inr []"
| "finish_namespaces ((namespace, m) # rest) =
     (case detect_pattern (ns_additions m) (ns_deletions m) of
        Inl e \<Rightarrow> Inl e
      | Inr p \<Rightarrow>
          (case finish_namespaces rest of
             Inl e \<Rightarrow> Inl e
           | Inr rest' \<Rightarrow>
               Inr ((namespace, m\<lparr>ns_files := sort_reverse fd_total (ns_files m),
                                  ns_pattern := p\<rparr>) # rest')))"

definition aggregate_with_details ::
  "change list \<Rightarrow> py_exception + (string \<times> ns_metrics) list" where
  "aggregate_with_details changes = finish_namespaces (foldl add_change [] changes)"

text \<open>
  For the statements about the aggregate: the input tuples of one namespace, in input
  order, the per-file summary of a tuple, and the sums of a list of tuples.
\<close>

definition changes_of :: "string \<Rightarrow> change list \<Rightarrow> change list" where
  "changes_of ns changes = filter (\<lambda>c. fst c = ns) changes"

definition file_of :: "change \<Rightarrow> file_detail" where
  "file_of c =
     (case c of (namespace, additions, deletions, filepath) \<Rightarrow>
        \<lparr>fd_path = filepath, fd_additions = additions, fd_deletions = deletions,
         fd_total = additions + deletions\<rparr>)"

definition folded :: "change list \<Rightarrow> ns_metrics" where
  "folded cs =
     \<lparr>ns_additions = (\<Sum>(n, a, d, p) \<leftarrow> cs. a),
      ns_deletions = (\<Sum>(n, a, d, p) \<leftarrow> cs. d),
      ns_total = (\<Sum>(n, a, d, p) \<leftarrow> cs. a + d),
      ns_file_count = int (length cs),
      ns_files = map file_of cs,
      ns_pattern = ''normal''\<rparr>"

text \<open>The dictionary comprehension of \<open>analyze\<close> in enhanced mode.\<close>

definition filter_by_total ::
  "(string \<times> ns_metrics) list \<Rightarrow> int \<Rightarrow> (string \<times> ns_metrics) list" where
  "filter_by_total aggregated min_threshold =
     filter (\<lambda>(ns, metrics). ns_total metrics \<ge> min_threshold) aggregated"

subsection \<open>AuthorshipAnalyzer.calculate_ownership\<close>

type_synonym observation = "string \<times> string \<times> int"

text \<open>
  The body of the inner loop, for one \<open>(namespace, filepath, lines)\<close> of \<open>author\<close>:
  the inner dictionary of the namespace is created when missing, the author's entry starts
  at 0, and \<open>lines\<close> is added to it.
\<close>

fun add_observation ::
  "string \<Rightarrow> (string \<times> (string \<times> int) list) list \<Rightarrow> observation \<Rightarrow>
     (string \<times> (string \<times> int) list) list" where
  "add_observation author namespace_authors (namespace, filepath, lines) =
     (let authors = (case map_of namespace_authors namespace of None \<Rightarrow> [] | Some au \<Rightarrow> au);
          n = (case map_of authors author of None \<Rightarrow> 0 | Some n \<Rightarrow> n)
      in AList.update namespace (AList.update author (n + lines) authors) namespace_authors)"

definition collect_namespace_authors ::
  "(string \<times> observation list) list \<Rightarrow> (string \<times> (string \<times> int) list) list" where
  "collect_namespace_authors author_changes =
     foldl (\<lambda>namespace_authors (author, changes).
              foldl (add_observation author) namespace_authors changes)
       [] author_changes"

text \<open>
  \<open>max(items, key=...)\<close> keeps the first of the items with the largest key, and raises
  \<open>ValueError\<close> on an empty sequence.
\<close>

fun max_from :: "('a \<Rightarrow> int) \<Rightarrow> 'a \<Rightarrow> 'a list \<Rightarrow> 'a" where
  "max_from key best [] = best"
| "max_from key best (x # xs) = max_from key (if key x > key best then x else best) xs"

fun py_max :: "('a \<Rightarrow> int) \<Rightarrow> 'a list \<Rightarrow> py_exception + 'a" where
  "py_max key [] = Inl (ValueError ''max() arg is an empty sequence'')"
| "py_max key (x # xs) = Inr (max_from key x xs)"

record ownership_entry =
  primary_author :: string
  primary_lines :: int
  total_lines :: int
  ownership_percent :: pyfloat
  all_authors :: "(string \<times> int) list"

text \<open>
  \<open>float * int\<close> converts the integer and multiplies in binary64. \<open>percent_expr\<close> is
  the expression \<open>primary_author[1] / total_lines * 100\<close>; the percentage is its value
  when \<open>total_lines > 0\<close> and the integer 0 otherwise (written \<open>Finite 0\<close>).
\<close>

definition float_mul_int :: "rat \<Rightarrow> int \<Rightarrow> py_exception + pyfloat" where
  "float_mul_int x i =
     (case int_to_float i of Inl e \<Rightarrow> Inl e | Inr y \<Rightarrow> Inr (float_mul x y))"

definition percent_expr :: "int \<Rightarrow> int \<Rightarrow> py_exception + pyfloat" where
  "percent_expr p t =
     (case int_truediv p t of
        Inl e \<Rightarrow> Inl e
      | Inr ratio \<Rightarrow> float_mul_int ratio 100)"

definition ownership_of :: "(string \<times> int) list \<Rightarrow> py_exception + ownership_entry" where
  "ownership_of authors =
     (let total = sum_list (map snd authors) in
      case py_max snd authors of Inl e \<Rightarrow> Inl e | Inr primary \<Rightarrow>
      case (if total > 0 then percent_expr (snd primary) total else Inr (Finite 0)) of
        Inl e \<Rightarrow> Inl e
      | Inr percent \<Rightarrow>
          Inr \<lparr>primary_author = fst primary, primary_lines = snd primary,
               total_lines = total, ownership_percent = percent, all_authors = authors\<rparr>)"

fun ownership_entries ::
  "(string \<times> (string \<times> int) list) list \<Rightarrow> py_exception + (string \<times> ownership_entry) list" where
  "ownership_entries [] = Inr []"
| "ownership_entries ((namespace, authors) # rest) =
     (case ownership_of authors of
        Inl e \<Rightarrow> Inl e
      | Inr entry \<Rightarrow>
          (case ownership_entries rest of
             Inl e \<Rightarrow> Inl e
           | Inr rest' \<Rightarrow> Inr ((namespace, entry) # rest')))"

definition calculate_ownership ::
  "(string \<times> observation list) list \<Rightarrow> py_exception + (string \<times> ownership_entry) list" where
  "calculate_ownership author_changes =
     ownership_entries (collect_namespace_authors author_changes)"

text \<open>
  For the statements about ownership: the lines an author's observations give to a
  namespace, and the authors with an observation in the namespace, in the order of the
  input, each with the sum of its lines.
\<close>

definition lines_in :: "string \<Rightarrow> observation list \<Rightarrow> int list" where
  "lines_in ns changes = map (\<lambda>(n, f, l). l) (filter (\<lambda>(n, f, l). n = ns) changes)"

definition contributors :: "(string \<times> observation list) list \<Rightarrow> string \<Rightarrow> (string \<times> int) list" where
  "contributors author_changes ns =
     map (\<lambda>(author, changes). (author, sum_list (lines_in ns changes)))
       (filter (\<lambda>(author, changes). lines_in ns changes \<noteq> []) author_changes)"

subsection \<open>Strings of the interpreter\<close>

definition TAB :: char where
  "TAB = CHR 0x09"

definition NL :: char where
  "NL = CHR 0x0A"

text \<open>
  \<open>str.isspace\<close>, which \<open>str.strip()\<close> and the class \<open>\s\<close> of \<open>re\<close> use: below 256 the
  code points 9 to 13, 28 to 32, 133 and 160.
\<close>

definition py_isspace :: "char \<Rightarrow> bool" where
  "py_isspace c =
     (let n = (of_char c :: nat)
      in (9 \<le> n \<and> n \<le> 13) \<or> (28 \<le> n \<and> n \<le> 32) \<or> n = 133 \<or> n = 160)"

definition py_strip :: "string \<Rightarrow> string" where
  "py_strip s = rev (dropWhile py_isspace (rev (dropWhile py_isspace s)))"

text \<open>\<open>s.split(c)\<close> for a separator of one character: never an empty list.\<close>

fun split_on :: "char \<Rightarrow> string \<Rightarrow> string list" where
  "split_on c [] = [[]]"
| "split_on c (x # xs) =
     (if x = c then [] # split_on c xs
      else (case split_on c xs of w # ws \<Rightarrow> (x # w) # ws | [] \<Rightarrow> [[x]]))"

definition endswith :: "string \<Rightarrow> string \<Rightarrow> bool" where
  "endswith s suf = (length suf \<le> length s \<and> drop (length s - length suf) s = suf)"

text \<open>
  \<open>int(s)\<close> for a string: whitespace around (here the six ASCII whitespace characters
  and, of the code points from 128 to 255, 133 and 160), an optional sign, then decimal
  digits, where single underscores may stand between digits. \<open>max_digits\<close> is the
  interpreter's limit on the number of digits (\<open>sys.get_int_max_str_digits()\<close>: 4300 by
  default since Python 3.11, 0 for no limit; the interpreter accepts no other value below
  640). Everything else raises \<open>ValueError\<close>.
\<close>

definition int_space :: "char \<Rightarrow> bool" where
  "int_space c =
     (let n = (of_char c :: nat) in (9 \<le> n \<and> n \<le> 13) \<or> n = 32 \<or> n = 133 \<or> n = 160)"

definition is_digit :: "char \<Rightarrow> bool" where
  "is_digit c = (48 \<le> (of_char c :: nat) \<and> (of_char c :: nat) \<le> 57)"

definition digit_or_underscore :: "char \<Rightarrow> bool" where
  "digit_or_underscore c = (is_digit c \<or> c = CHR ''_'')"

fun adjacent_underscores :: "string \<Rightarrow> bool" where
  "adjacent_underscores (a # b # cs) =
     ((a = CHR ''_'' \<and> b = CHR ''_'') \<or> adjacent_underscores (b # cs))"
| "adjacent_underscores cs = False"

definition digits_value :: "string \<Rightarrow> nat" where
  "digits_value ds = foldl (\<lambda>v c. 10 * v + (of_char c - 48)) 0 ds"

definition py_int :: "nat \<Rightarrow> string \<Rightarrow> py_exception + int" where
  "py_int max_digits s =
     (let s1 = dropWhile int_space s;
          negative = (s1 \<noteq> [] \<and> hd s1 = CHR ''-'');
          s2 = (if s1 \<noteq> [] \<and> (hd s1 = CHR ''-'' \<or> hd s1 = CHR ''+'') then tl s1 else s1);
          body = takeWhile digit_or_underscore s2;
          rest = dropWhile digit_or_underscore s2;
          digits = filter is_digit body
      in if body = [] \<or> hd body = CHR ''_'' \<or> last body = CHR ''_'' \<or>
            adjacent_underscores body \<or> \<not> list_all int_space rest \<or>
            (0 < max_digits \<and> max_digits < length digits)
         then Inl (ValueError ''invalid literal for int() with base 10'')
         else Inr (if negative then - int (digits_value digits) else int (digits_value digits)))"

subsection \<open>GitLogParser\<close>

definition parse_numstat_line :: "nat \<Rightarrow> string \<Rightarrow> (int \<times> int \<times> string) option" where
  "parse_numstat_line max_digits line =
     (case split_on TAB (py_strip line) of
        [added, deleted, filepath] \<Rightarrow>
          if added = ''-'' \<or> deleted = ''-'' then None
          else (case py_int max_digits added of
                  Inl e \<Rightarrow> None
                | Inr a \<Rightarrow>
                    (case py_int max_digits deleted of
                       Inl e \<Rightarrow> None
                     | Inr d \<Rightarrow> Some (a, d, filepath)))
      | _ \<Rightarrow> None)"


subsection \<open>The regular expressions of NamespaceParser\<close>

text \<open>
  The patterns of the source use line anchors, literal characters, character classes
  under \<open>*\<close>, \<open>+\<close> and \<open>*?\<close>, and one capturing group around a class under \<open>+\<close>. A
  pattern is a list of such atoms, and \<open>rmatch\<close> is the backtracking matcher of \<open>re\<close> on
  them: a greedy repetition first tries to take one more character, a lazy one first
  tries to stop. The position in the text is the pair of the text before it (reversed)
  and the text after it; the result of a match is group 1, and the texts before and after
  the end of the match. \<open>GroupRest\<close> is the continuation of a group that has taken a
  character. \<open>\w\<close> is the word class of \<open>str\<close> patterns below 256; \<open>^\<close> and \<open>$\<close> are those
  of \<open>re.MULTILINE\<close>; \<open>Dot\<close> is \<open>.\<close> and \<open>DotAll\<close> is \<open>.\<close> under \<open>re.DOTALL\<close>; \<open>LitI\<close> is
  a letter under \<open>re.IGNORECASE\<close>.
\<close>

definition py_isword :: "char \<Rightarrow> bool" where
  "py_isword c =
     (let n = (of_char c :: nat)
      in (48 \<le> n \<and> n \<le> 57) \<or> (65 \<le> n \<and> n \<le> 90) \<or> n = 95 \<or> (97 \<le> n \<and> n \<le> 122) \<or>
         n = 170 \<or> n = 178 \<or> n = 179 \<or> n = 181 \<or> n = 185 \<or> n = 186 \<or>
         (188 \<le> n \<and> n \<le> 190) \<or> (192 \<le> n \<and> n \<le> 214) \<or> (216 \<le> n \<and> n \<le> 246) \<or>
         (248 \<le> n \<and> n \<le> 255))"

definition ascii_lower :: "char \<Rightarrow> char" where
  "ascii_lower c =
     (let n = (of_char c :: nat) in if 65 \<le> n \<and> n \<le> 90 then char_of (n + 32) else c)"

datatype cls = Space | WordDot | Dot | DotAll

fun cls_ok :: "cls \<Rightarrow> char \<Rightarrow> bool" where
  "cls_ok Space c = py_isspace c"
| "cls_ok WordDot c = (py_isword c \<or> c = CHR ''.'')"
| "cls_ok Dot c = (c \<noteq> NL)"
| "cls_ok DotAll c = True"

datatype atom = Bol | Eol | Lit char | LitI char | Star cls | Plus cls | LazyStar cls
  | Group cls | GroupRest cls

function (sequential) rmatch ::
  "atom list \<Rightarrow> string \<Rightarrow> string \<Rightarrow> string \<Rightarrow> (string \<times> string \<times> string) option" where
  "rmatch [] b a g = Some (g, b, a)"
| "rmatch (Bol # ps) b a g = (if b = [] \<or> hd b = NL then rmatch ps b a g else None)"
| "rmatch (Eol # ps) b a g = (if a = [] \<or> hd a = NL then rmatch ps b a g else None)"
| "rmatch (Lit c # ps) b [] g = None"
| "rmatch (Lit c # ps) b (x # a) g = (if x = c then rmatch ps (x # b) a g else None)"
| "rmatch (LitI c # ps) b [] g = None"
| "rmatch (LitI c # ps) b (x # a) g =
     (if ascii_lower x = ascii_lower c then rmatch ps (x # b) a g else None)"
| "rmatch (Star k # ps) b [] g = rmatch ps b [] g"
| "rmatch (Star k # ps) b (x # a) g =
     (if cls_ok k x
      then (case rmatch (Star k # ps) (x # b) a g of
              Some r \<Rightarrow> Some r
            | None \<Rightarrow> rmatch ps b (x # a) g)
      else rmatch ps b (x # a) g)"
| "rmatch (Plus k # ps) b [] g = None"
| "rmatch (Plus k # ps) b (x # a) g =
     (if cls_ok k x then rmatch (Star k # ps) (x # b) a g else None)"
| "rmatch (LazyStar k # ps) b [] g = rmatch ps b [] g"
| "rmatch (LazyStar k # ps) b (x # a) g =
     (case rmatch ps b (x # a) g of
        Some r \<Rightarrow> Some r
      | None \<Rightarrow> if cls_ok k x then rmatch (LazyStar k # ps) (x # b) a g else None)"
| "rmatch (Group k # ps) b [] g = None"
| "rmatch (Group k # ps) b (x # a) g =
     (if cls_ok k x then rmatch (GroupRest k # ps) (x # b) a [x] else None)"
| "rmatch (GroupRest k # ps) b [] g = rmatch ps b [] g"
| "rmatch (GroupRest k # ps) b (x # a) g =
     (if cls_ok k x
      then (case rmatch (GroupRest k # ps) (x # b) a (g @ [x]) of
              Some r \<Rightarrow> Some r
            | None \<Rightarrow> rmatch ps b (x # a) g)
      else rmatch ps b (x # a) g)"
  by pat_completeness auto
termination
  by (relation "measures [\<lambda>(ps, b, a, g). length a, \<lambda>(ps, b, a, g). length ps]") auto

text \<open>
  \<open>pattern.search(text)\<close>: the first position, from the left, where the pattern matches;
  the result is that position and group 1.
\<close>

fun re_search :: "atom list \<Rightarrow> string \<Rightarrow> string \<Rightarrow> (nat \<times> string) option" where
  "re_search p b [] = (case rmatch p b [] [] of Some (g, b', a') \<Rightarrow> Some (length b, g) | None \<Rightarrow> None)"
| "re_search p b (x # a) =
     (case rmatch p b (x # a) [] of
        Some (g, b', a') \<Rightarrow> Some (length b, g)
      | None \<Rightarrow> re_search p (x # b) a)"

text \<open>
  \<open>re.sub(pattern, '', text)\<close>: the non-overlapping matches, from the left, are removed
  (\<open>skip\<close> counts the characters of a match still to drop; an empty match removes
  nothing).
\<close>

fun re_sub_from :: "atom list \<Rightarrow> string \<Rightarrow> string \<Rightarrow> nat \<Rightarrow> string" where
  "re_sub_from p b [] skip = []"
| "re_sub_from p b (x # a) skip =
     (if skip > 0 then re_sub_from p (x # b) a (skip - 1)
      else (case rmatch p b (x # a) [] of
              None \<Rightarrow> x # re_sub_from p (x # b) a 0
            | Some (g, b', a') \<Rightarrow>
                if length a' \<ge> length (x # a) then x # re_sub_from p (x # b) a 0
                else re_sub_from p (x # b) a (length (x # a) - length a' - 1)))"

definition re_sub_empty :: "atom list \<Rightarrow> string \<Rightarrow> string" where
  "re_sub_empty p s = re_sub_from p [] s 0"

text \<open>
  \<open>^\s*namespace\s+([\w\.]+)\s*\{\<close>, \<open>^\s*namespace\s+([\w\.]+)\s*;\<close> and
  \<open>^\s*Namespace\s+([\w\.]+)\<close> (case-insensitive); then the comment patterns \<open>//.*$\<close>,
  \<open>/\*.*?\*/\<close> and \<open>'.*$\<close> of \<open>_remove_comments\<close>.
\<close>

definition CSHARP_TRADITIONAL :: "atom list" where
  "CSHARP_TRADITIONAL =
     [Bol, Star Space] @ map Lit ''namespace'' @ [Plus Space, Group WordDot, Star Space,
      Lit (CHR ''{'')]"

definition CSHARP_FILE_SCOPED :: "atom list" where
  "CSHARP_FILE_SCOPED =
     [Bol, Star Space] @ map Lit ''namespace'' @ [Plus Space, Group WordDot, Star Space,
      Lit (CHR '';'')]"

definition VBNET_NAMESPACE :: "atom list" where
  "VBNET_NAMESPACE = [Bol, Star Space] @ map LitI ''Namespace'' @ [Plus Space, Group WordDot]"

definition LINE_COMMENT :: "atom list" where
  "LINE_COMMENT = [Lit (CHR ''/''), Lit (CHR ''/''), Star Dot, Eol]"

definition BLOCK_COMMENT :: "atom list" where
  "BLOCK_COMMENT =
     [Lit (CHR ''/''), Lit (CHR ''*''), LazyStar DotAll, Lit (CHR ''*''), Lit (CHR ''/'')]"

definition VB_COMMENT :: "atom list" where
  "VB_COMMENT = [Lit (CHR 0x27), Star Dot, Eol]"

subsection \<open>NamespaceParser\<close>

definition remove_comments :: "string \<Rightarrow> string \<Rightarrow> string" where
  "remove_comments content filepath =
     (if endswith filepath ''.cs''
      then re_sub_empty BLOCK_COMMENT (re_sub_empty LINE_COMMENT content)
      else if endswith filepath ''.vb'' then re_sub_empty VB_COMMENT content
      else content)"

definition extract_csharp_namespace :: "string \<Rightarrow> string" where
  "extract_csharp_namespace content =
     (case re_search CSHARP_FILE_SCOPED [] content of
        Some (i, g) \<Rightarrow> g
      | None \<Rightarrow>
          (case re_search CSHARP_TRADITIONAL [] content of
             Some (i, g) \<Rightarrow> g
           | None \<Rightarrow> ''(global)''))"

definition extract_vbnet_namespace :: "string \<Rightarrow> string" where
  "extract_vbnet_namespace content =
     (case re_search VBNET_NAMESPACE [] content of
        Some (i, g) \<Rightarrow> g
      | None \<Rightarrow> ''(global)'')"

definition extract_namespace :: "string \<Rightarrow> string \<Rightarrow> string" where
  "extract_namespace content filepath =
     (if py_strip content = [] then ''(global)''
      else let content' = remove_comments content filepath
           in if endswith filepath ''.cs'' then extract_csharp_namespace content'
              else if endswith filepath ''.vb'' then extract_vbnet_namespace content'
              else ''(global)'')"

text \<open>
  For the statements about the search: the attempt to match a pattern at offset \<open>i\<close> of
  a text, giving group 1 and the offset of the end of the match.
\<close>

definition match_at :: "atom list \<Rightarrow> string \<Rightarrow> nat \<Rightarrow> (string \<times> nat) option" where
  "match_at p s i =
     (case rmatch p (rev (take i s)) (drop i s) [] of
        Some (g, b', a') \<Rightarrow> Some (g, length b')
      | None \<Rightarrow> None)"

subsection \<open>GitCommandBuilder\<close>





subsection \<open>NamespaceChurnAnalyzer.analyze and main\<close>


























section \<open>Properties\<close>

subsection \<open>Rounding to binary64\<close>

lemma bit_length_bounds:
  "n > 0 \<Longrightarrow> 2 ^ (bit_length n - 1) \<le> n \<and> n < 2 ^ bit_length n"
proof (induction n rule: bit_length.induct)
  case (1 n)
  show ?case
  proof (cases "n div 2 = 0")
    case True
    with "1.prems" have "n = 1" by auto
    then show ?thesis by (simp add: bit_length.simps)
  next
    case False
    then have pos: "n div 2 > 0" by simp
    from "1.IH" [OF _ pos] "1.prems"
    have ih: "2 ^ (bit_length (n div 2) - 1) \<le> n div 2" "n div 2 < 2 ^ bit_length (n div 2)"
      by auto
    have bl: "bit_length n = Suc (bit_length (n div 2))"
      using "1.prems" by (subst bit_length.simps) simp
    have k: "bit_length (n div 2) > 0"
      using pos by (subst bit_length.simps) simp
    then obtain j where j: "bit_length (n div 2) = Suc j" by (cases "bit_length (n div 2)") auto
    from ih have "2 * 2 ^ j \<le> 2 * (n div 2)" by (simp add: j)
    then have lo: "2 ^ Suc j \<le> n" by simp
    from ih(2) have "n div 2 + 1 \<le> 2 ^ Suc j" by (simp add: j)
    then have "2 * (n div 2) + 2 \<le> 2 * 2 ^ Suc j" by linarith
    then have hi: "n < 2 ^ Suc (Suc j)" by simp
    show ?thesis using lo hi by (simp add: bl j)
  qed
qed

lemma floor_log2_bounds:
  assumes "0 < x"
  shows "2 powi (floor_log2 x) \<le> x \<and> x < 2 powi (floor_log2 x + 1)"
proof (cases "x \<ge> 1")
  case True
  define f where "f = nat \<lfloor>x\<rfloor>"
  have fpos: "f > 0" using True by (simp add: f_def)
  have fx: "rat_of_nat f \<le> x" "x < rat_of_nat f + 1"
    using True by (simp_all add: f_def) linarith+
  from bit_length_bounds [OF fpos]
  have b: "2 ^ (bit_length f - 1) \<le> f" "f < 2 ^ bit_length f" by auto
  have e: "floor_log2 x = int (bit_length f) - 1"
    using True by (simp add: floor_log2_def f_def)
  have blpos: "bit_length f > 0" using fpos by (subst bit_length.simps) simp
  have e': "floor_log2 x = int (bit_length f - 1)" using blpos e by simp
  have "rat_of_nat (2 ^ (bit_length f - 1)) \<le> rat_of_nat f" using b(1) by (rule of_nat_mono)
  then have "(2::rat) ^ (bit_length f - 1) \<le> rat_of_nat f" by simp
  then have "(2::rat) ^ (bit_length f - 1) \<le> x" using fx(1) by linarith
  moreover have "(2::rat) powi (floor_log2 x) = 2 ^ (bit_length f - 1)" by (simp only: e' power_int_of_nat)
  ultimately have lo: "2 powi (floor_log2 x) \<le> x" by simp
  have "f + 1 \<le> 2 ^ bit_length f" using b(2) by simp
  then have "rat_of_nat (f + 1) \<le> rat_of_nat (2 ^ bit_length f)" by (rule of_nat_mono)
  then have "rat_of_nat f + 1 \<le> 2 ^ bit_length f" by simp
  then have "x < 2 ^ bit_length f" using fx(2) by linarith
  then have hi: "x < 2 powi (floor_log2 x + 1)" by (simp add: e)
  show ?thesis using lo hi by simp
next
  case False
  then have x1: "x < 1" by simp
  define y where "y = 1 / x"
  have y1: "y > 1" using assms x1 by (simp add: y_def)
  define c where "c = \<lceil>y\<rceil>"
  have c2: "c \<ge> 2" using y1 by (simp add: c_def)
  have cy: "of_int c - 1 < y" "y \<le> of_int c" by (simp_all add: c_def) linarith
  define n where "n = nat (c - 1)"
  have npos: "n > 0" using c2 by (simp add: n_def)
  have nc: "int n = c - 1" using c2 by (simp add: n_def)
  from bit_length_bounds [OF npos]
  have b: "2 ^ (bit_length n - 1) \<le> n" "n < 2 ^ bit_length n" by auto
  have e: "floor_log2 x = - int (bit_length n)"
    using False by (simp add: floor_log2_def n_def c_def y_def)
  have blpos: "bit_length n > 0" using npos by (subst bit_length.simps) simp
  have "int n + 1 \<le> 2 ^ bit_length n" using b(2) by (metis of_nat_less_iff of_nat_numeral of_nat_power zless_imp_add1_zle)
  then have "c \<le> 2 ^ bit_length n" using nc by simp
  then have "rat_of_int c \<le> rat_of_int (2 ^ bit_length n)" by (simp only: of_int_le_iff)
  then have "rat_of_int c \<le> 2 ^ bit_length n" by simp
  then have "y \<le> 2 ^ bit_length n" using cy(2) by linarith
  then have "1 / 2 ^ bit_length n \<le> x"
    using assms by (simp add: y_def field_simps)
  then have lo: "2 powi (floor_log2 x) \<le> x"
    by (simp add: e power_int_minus_divide)
  have "rat_of_nat (2 ^ (bit_length n - 1)) \<le> rat_of_nat n" using b(1) by (rule of_nat_mono)
  then have "(2::rat) ^ (bit_length n - 1) \<le> rat_of_nat n" by simp
  moreover have "rat_of_nat n = of_int c - 1" using nc by (metis of_int_of_nat_eq of_int_diff of_int_1)
  ultimately have "2 ^ (bit_length n - 1) < y" using cy(1) by linarith
  then have "x < 1 / 2 ^ (bit_length n - 1)"
    using assms by (simp add: y_def field_simps)
  moreover have "floor_log2 x + 1 = - int (bit_length n - 1)" using blpos e by simp
  ultimately have hi: "x < 2 powi (floor_log2 x + 1)"
    by (simp add: power_int_minus_divide)
  show ?thesis using lo hi by simp
qed

lemma floor_log2_unique:
  assumes "2 powi e \<le> x" "x < 2 powi (e + 1)"
  shows "floor_log2 x = e"
proof -
  have xpos: "0 < x" using assms(1) by (meson less_le_trans zero_less_numeral zero_less_power_int)
  from floor_log2_bounds [OF xpos]
  have b: "2 powi (floor_log2 x) \<le> x" "x < 2 powi (floor_log2 x + 1)" by auto
  have "\<not> floor_log2 x < e"
  proof
    assume "floor_log2 x < e"
    then have "(2::rat) powi (floor_log2 x + 1) \<le> 2 powi e"
      by (intro power_int_increasing) auto
    with b(2) assms(1) show False by simp
  qed
  moreover have "\<not> e < floor_log2 x"
  proof
    assume "e < floor_log2 x"
    then have "(2::rat) powi (e + 1) \<le> 2 powi (floor_log2 x)"
      by (intro power_int_increasing) auto
    with b(1) assms(2) show False by simp
  qed
  ultimately show ?thesis by simp
qed

lemma round_half_even_unique:
  assumes "\<bar>x - of_int m\<bar> < 1 / 2"
  shows "round_half_even x = m"
proof -
  define f where "f = \<lfloor>x\<rfloor>"
  have fx: "of_int f \<le> x" "x < of_int f + 1" by (simp_all add: f_def) linarith
  consider "x - of_int f < 1 / 2" | "x - of_int f > 1 / 2" | "x - of_int f = 1 / 2" by linarith
  then show ?thesis
  proof cases
    case 1
    have "\<bar>rat_of_int f - of_int m\<bar> < 1" using 1 assms fx by linarith
    then have "\<bar>rat_of_int (f - m)\<bar> < 1" by simp
    then have "\<bar>f - m\<bar> < 1" by (metis of_int_abs of_int_less_1_iff)
    then have "f = m" by simp
    then show ?thesis using 1 by (simp add: round_half_even_def f_def Let_def)
  next
    case 2
    have "\<bar>rat_of_int f + 1 - of_int m\<bar> < 1" using 2 assms fx by linarith
    then have "\<bar>rat_of_int (f + 1 - m)\<bar> < 1" by simp
    then have "\<bar>f + 1 - m\<bar> < 1" by (metis of_int_abs of_int_less_1_iff)
    then have "f + 1 = m" by simp
    then show ?thesis using 2 by (auto simp add: round_half_even_def f_def Let_def)
  next
    case 3
    have "\<bar>2 * rat_of_int f + 1 - 2 * of_int m\<bar> < 1" using 3 assms by linarith
    then have "\<bar>rat_of_int (2 * f + 1 - 2 * m)\<bar> < 1" by simp
    then have "\<bar>2 * f + 1 - 2 * m\<bar> < 1" by (metis of_int_abs of_int_less_1_iff)
    then show ?thesis by presburger
  qed
qed

lemma round_half_even_le:
  assumes "x \<le> of_int k"
  shows "round_half_even x \<le> k"
proof -
  define f where "f = \<lfloor>x\<rfloor>"
  have fx: "of_int f \<le> x" "x < of_int f + 1" by (simp_all add: f_def) linarith
  have fk: "f \<le> k" using assms by (simp add: f_def floor_le_iff)
  show ?thesis
  proof (cases "f = k")
    case True
    then have "x = of_int f" using assms fx by simp
    then show ?thesis using True by (simp add: round_half_even_def Let_def)
  next
    case False
    then have "f + 1 \<le> k" using fk by simp
    then show ?thesis by (auto simp add: round_half_even_def Let_def f_def)
  qed
qed

lemma round_half_even_ge:
  assumes "of_int k \<le> x"
  shows "k \<le> round_half_even x"
proof -
  have "k \<le> \<lfloor>x\<rfloor>" using assms by (simp add: le_floor_iff)
  then show ?thesis by (auto simp add: round_half_even_def Let_def)
qed

lemma round_half_even_below_half:
  assumes "x < of_int k - 1 / 2"
  shows "round_half_even x < k"
proof -
  define f where "f = \<lfloor>x\<rfloor>"
  have fx: "of_int f \<le> x" "x < of_int f + 1" by (simp_all add: f_def) linarith
  have "rat_of_int f < of_int k" using fx assms by linarith
  then have fk: "f < k" by simp
  show ?thesis
  proof (cases "f + 1 = k")
    case True
    then have "x - of_int f < 1 / 2" using assms by simp
    then show ?thesis using fk by (simp add: round_half_even_def Let_def f_def)
  next
    case False
    then have "f + 1 < k" using fk by simp
    then show ?thesis by (auto simp add: round_half_even_def Let_def f_def)
  qed
qed


lemma round64_pos:
  "0 < x \<Longrightarrow> round64 x =
     of_int (round_half_even (x / 2 powi (max (floor_log2 x) (- 1022) - 52))) *
       2 powi (max (floor_log2 x) (- 1022) - 52)"
  by (simp add: round64_def Let_def)

lemma round64_binade:
  assumes "2 powi e \<le> x" "x < 2 powi (e + 1)" "- 1022 \<le> e"
  shows "round64 x = of_int (round_half_even (x / 2 powi (e - 52))) * 2 powi (e - 52)"
proof -
  have xpos: "0 < x" using assms(1) by (meson less_le_trans zero_less_numeral zero_less_power_int)
  have "floor_log2 x = e" using assms(1,2) by (rule floor_log2_unique)
  then show ?thesis using assms(3) by (simp add: round64_pos [OF xpos] max_def)
qed

lemma round64_nonneg:
  assumes "0 \<le> x"
  shows "0 \<le> round64 x"
proof (cases "x = 0")
  case True
  then show ?thesis by (simp add: round64_def)
next
  case False
  then have xpos: "0 < x" using assms by simp
  define q :: rat where "q = 2 powi (max (floor_log2 x) (- 1022) - 52)"
  have qpos: "0 < q" by (simp add: q_def)
  have "rat_of_int 0 \<le> x / q" using xpos qpos by simp
  then have "0 \<le> round_half_even (x / q)" by (rule round_half_even_ge)
  then show ?thesis using qpos by (simp add: round64_pos [OF xpos] q_def [symmetric])
qed

lemma scaled_int:
  assumes "e \<le> j"
  shows "rat_of_int m * 2 powi j / 2 powi e = of_int (m * 2 ^ nat (j - e))"
proof -
  have "(2::rat) powi j = 2 powi (j - e) * 2 powi e"
    by (simp add: power_int_add [symmetric])
  moreover have "(2::rat) powi (j - e) = 2 ^ nat (j - e)"
    using assms by (simp add: power_int_nonneg_exp)
  ultimately show ?thesis by simp
qed

lemma below_binade:
  assumes "0 \<le> m" "m < 2 ^ 53" "j + 53 \<le> e"
  shows "rat_of_int m * 2 powi j < 2 powi e"
proof -
  have "rat_of_int m < rat_of_int (2 ^ 53)" using assms(2) by (simp only: of_int_less_iff)
  then have "rat_of_int m < 2 ^ 53" by simp
  then have "rat_of_int m * 2 powi j < 2 ^ 53 * 2 powi j" by simp
  also have "\<dots> = 2 powi (53 + j)" by (simp add: power_int_add)
  also have "\<dots> \<le> 2 powi e" using assms(3) by (intro power_int_increasing) auto
  finally show ?thesis .
qed

lemma round64_le_repr:
  assumes "0 < x" "x \<le> of_int m * 2 powi j" "m < 2 ^ 53" "- 1074 \<le> j"
  shows "round64 x \<le> of_int m * 2 powi j"
proof -
  define E where "E = max (floor_log2 x) (- 1022)"
  define q :: rat where "q = 2 powi (E - 52)"
  have qpos: "0 < q" by (simp add: q_def)
  have r: "round64 x = of_int (round_half_even (x / q)) * q"
    by (simp add: round64_pos [OF assms(1)] q_def E_def)
  have mpos: "0 \<le> m"
  proof (rule ccontr)
    assume "\<not> 0 \<le> m"
    then have "rat_of_int m < 0" by simp
    then have "rat_of_int m * 2 powi j < 0" by (simp add: mult_less_0_iff)
    with assms(1,2) show False by simp
  qed
  show ?thesis
  proof (cases "E - 52 \<le> j")
    case True
    define K where "K = m * 2 ^ nat (j - (E - 52))"
    have gq: "of_int m * 2 powi j / q = of_int K"
      unfolding q_def K_def using True by (rule scaled_int)
    have "x / q \<le> of_int m * 2 powi j / q" using assms(2) qpos by (simp add: divide_right_mono)
    then have "x / q \<le> of_int K" by (simp only: gq)
    then have "round_half_even (x / q) \<le> K" by (rule round_half_even_le)
    then have "rat_of_int (round_half_even (x / q)) \<le> of_int K" by (simp only: of_int_le_iff)
    then have "of_int (round_half_even (x / q)) * q \<le> of_int K * q"
      using qpos by (simp add: mult_right_mono)
    moreover have "of_int K * q = of_int m * 2 powi j"
      using gq qpos by (simp add: field_simps)
    ultimately show ?thesis by (simp add: r)
  next
    case False
    then have jE: "j + 53 \<le> E" by simp
    then have "E > - 1022" using assms(4) by simp
    then have EE: "E = floor_log2 x" by (simp add: E_def max_def split: if_splits)
    have "2 powi E \<le> x" using floor_log2_bounds [OF assms(1)] by (simp add: EE)
    moreover have "rat_of_int m * 2 powi j < 2 powi E"
      using mpos assms(3) jE by (rule below_binade)
    ultimately show ?thesis using assms(2) by simp
  qed
qed

lemma round64_ge_repr:
  assumes "0 < m" "of_int m * 2 powi j \<le> x" "m < 2 ^ 53" "- 1074 \<le> j"
  shows "of_int m * 2 powi j \<le> round64 x"
proof -
  have gpos: "0 < rat_of_int m * 2 powi j" using assms(1) by simp
  then have xpos: "0 < x" using assms(2) by simp
  define E where "E = max (floor_log2 x) (- 1022)"
  define q :: rat where "q = 2 powi (E - 52)"
  have qpos: "0 < q" by (simp add: q_def)
  have r: "round64 x = of_int (round_half_even (x / q)) * q"
    by (simp add: round64_pos [OF xpos] q_def E_def)
  show ?thesis
  proof (cases "E - 52 \<le> j")
    case True
    define K where "K = m * 2 ^ nat (j - (E - 52))"
    have gq: "of_int m * 2 powi j / q = of_int K"
      unfolding q_def K_def using True by (rule scaled_int)
    have "of_int m * 2 powi j / q \<le> x / q" using assms(2) qpos by (simp add: divide_right_mono)
    then have "of_int K \<le> x / q" by (simp only: gq)
    then have "K \<le> round_half_even (x / q)" by (rule round_half_even_ge)
    then have "rat_of_int K \<le> of_int (round_half_even (x / q))" by (simp only: of_int_le_iff)
    then have "of_int K * q \<le> of_int (round_half_even (x / q)) * q"
      using qpos by (simp add: mult_right_mono)
    moreover have "of_int K * q = of_int m * 2 powi j"
      using gq qpos by (simp add: field_simps)
    ultimately show ?thesis by (simp add: r)
  next
    case False
    then have jE: "j + 53 \<le> E" by simp
    then have "E > - 1022" using assms(4) by simp
    then have EE: "E = floor_log2 x" by (simp add: E_def max_def split: if_splits)
    have lo: "2 powi E \<le> x" using floor_log2_bounds [OF xpos] by (simp add: EE)
    have g: "rat_of_int m * 2 powi j < 2 powi E"
      using assms(1,3) jE by (intro below_binade) auto
    have "(2::rat) powi E / q = of_int (1 * 2 ^ nat (E - (E - 52)))"
      unfolding q_def using scaled_int [of "E - 52" E 1] by simp
    then have "(2::rat) powi E / q = of_int (2 ^ 52)" by simp
    moreover have "2 powi E / q \<le> x / q" using lo qpos by (simp add: divide_right_mono)
    ultimately have "of_int (2 ^ 52) \<le> x / q" by simp
    then have "2 ^ 52 \<le> round_half_even (x / q)" by (rule round_half_even_ge)
    then have "rat_of_int (2 ^ 52) \<le> of_int (round_half_even (x / q))" by (simp only: of_int_le_iff)
    then have "of_int (2 ^ 52) * q \<le> of_int (round_half_even (x / q)) * q"
      using qpos by (simp add: mult_right_mono)
    moreover have "of_int (2 ^ 52) * q = 2 powi E"
      by (simp add: q_def power_int_diff)
    ultimately show ?thesis using g by (simp add: r)
  qed
qed

lemma round64_repr:
  assumes "0 < m" "m < 2 ^ 53" "- 1074 \<le> j"
  shows "round64 (of_int m * 2 powi j) = of_int m * 2 powi j"
proof -
  have pos: "0 < rat_of_int m * 2 powi j" using assms(1) by simp
  have "round64 (of_int m * 2 powi j) \<le> of_int m * 2 powi j"
    using pos _ assms(2,3) by (rule round64_le_repr) simp
  moreover have "of_int m * 2 powi j \<le> round64 (of_int m * 2 powi j)"
    using assms(1) _ assms(2,3) by (rule round64_ge_repr) simp
  ultimately show ?thesis by simp
qed

lemma literal_07: "float_literal (7 / 10) = 6305039478318694 / 2 ^ 53"
proof -
  have "round64 (7 / 10) =
      of_int (round_half_even ((7 / 10) / 2 powi (- 1 - 52))) * 2 powi (- 1 - 52)"
    by (rule round64_binade) simp_all
  moreover have "round_half_even ((7 / 10) / 2 powi (- 1 - 52)) = 6305039478318694"
    by (rule round_half_even_unique) simp
  ultimately show ?thesis by (simp add: float_literal_def)
qed

lemma literal_08: "float_literal (8 / 10) = 7205759403792794 / 2 ^ 53"
proof -
  have "round64 (8 / 10) =
      of_int (round_half_even ((8 / 10) / 2 powi (- 1 - 52))) * 2 powi (- 1 - 52)"
    by (rule round64_binade) simp_all
  moreover have "round_half_even ((8 / 10) / 2 powi (- 1 - 52)) = 7205759403792794"
    by (rule round_half_even_unique) simp
  ultimately show ?thesis by (simp add: float_literal_def)
qed

lemma to_double_small:
  assumes "0 \<le> x" "x \<le> 2 ^ 60"
  shows "to_double x = Finite (round64 x)"
proof -
  have lo: "0 \<le> round64 x" using assms(1) by (rule round64_nonneg)
  have hi: "round64 x \<le> 2 ^ 60"
  proof (cases "x = 0")
    case True
    then show ?thesis by (simp add: round64_def)
  next
    case False
    then have "0 < x" using assms(1) by simp
    moreover have "x \<le> of_int 1 * 2 powi 60" using assms(2) by simp
    ultimately have "round64 x \<le> of_int 1 * 2 powi 60"
      by (rule round64_le_repr) simp_all
    then show ?thesis by simp
  qed
  have "(2::rat) ^ 60 < 2 ^ 1024" by (rule power_strict_increasing) simp_all
  with lo hi show ?thesis by (simp add: to_double_def Let_def)
qed

lemma int_truediv_ratio:
  assumes "0 \<le> a" "a \<le> t" "0 < t"
  shows "int_truediv a t = Inr (round64 (of_int a / of_int t))"
proof -
  have "0 \<le> rat_of_int a / of_int t" using assms by simp
  moreover have "rat_of_int a / of_int t \<le> 1" using assms by simp
  then have "rat_of_int a / of_int t \<le> 2 ^ 60"
    by (rule order_trans) (rule one_le_power, simp)
  ultimately have "to_double (of_int a / of_int t) = Finite (round64 (of_int a / of_int t))"
    by (rule to_double_small)
  then show ?thesis using assms(3) by (simp add: int_truediv_def)
qed

lemma ratio_test:
  assumes "0 \<le> a" "a \<le> t" "0 < t" "9 * t < 2 ^ 53"
  shows "(round64 (of_int a / of_int t) \<ge> 6305039478318694 / 2 ^ 53) = (10 * a \<ge> 7 * t)"
proof (cases "10 * a \<ge> 7 * t")
  case True
  define x :: rat where "x = of_int a / of_int t"
  have "rat_of_int (7 * t) \<le> rat_of_int (10 * a)" using True by (simp only: of_int_le_iff)
  then have "7 / 10 \<le> x" using assms(3) by (simp add: x_def field_simps)
  then have "of_int 6305039478318694 * 2 powi (- 53) \<le> x" by simp
  then have "of_int 6305039478318694 * 2 powi (- 53) \<le> round64 x"
    by (intro round64_ge_repr) simp_all
  then show ?thesis using True by (simp add: x_def)
next
  case False
  define x :: rat where "x = of_int a / of_int t"
  have tpos: "0 < rat_of_int t" using assms(3) by simp
  have lt: "round64 x < 6305039478318694 / 2 ^ 53"
  proof (cases "2 * a < t")
    case True
    show ?thesis
    proof (cases "a = 0")
      case True
      then show ?thesis by (simp add: x_def round64_def)
    next
      case False
      then have "0 < x" using assms(1) tpos by (simp add: x_def)
      moreover have "rat_of_int (2 * a) \<le> rat_of_int t" using True by (simp only: of_int_le_iff)
      then have "x \<le> of_int 1 * 2 powi (- 1)" using tpos by (simp add: x_def field_simps)
      ultimately have "round64 x \<le> of_int 1 * 2 powi (- 1)"
        by (rule round64_le_repr) simp_all
      then show ?thesis by simp
    qed
  next
    case half: False
    have "rat_of_int t \<le> rat_of_int (2 * a)" using half by (simp only: of_int_le_iff)
    then have lo: "2 powi (- 1) \<le> x" using tpos by (simp add: x_def field_simps)
    have at: "a < t" using False assms by linarith
    then have "rat_of_int a < rat_of_int t" by (simp only: of_int_less_iff)
    then have hi: "x < 2 powi (- 1 + 1)" using tpos by (simp add: x_def)
    have r: "round64 x = of_int (round_half_even (x / 2 powi (- 1 - 52))) * 2 powi (- 1 - 52)"
      using lo hi by (rule round64_binade) simp
    have "2 * (a * 2 ^ 53) < (2 * 6305039478318694 - 1) * t"
      using False assms(4) by simp
    then have "rat_of_int (2 * (a * 2 ^ 53)) < rat_of_int ((2 * 6305039478318694 - 1) * t)"
      by (simp only: of_int_less_iff)
    then have "x * 2 ^ 53 < of_int 6305039478318694 - 1 / 2"
      using tpos by (simp add: x_def field_simps)
    then have "x / 2 powi (- 1 - 52) < of_int 6305039478318694 - 1 / 2"
      by (simp add: power_int_minus field_simps)
    then have "round_half_even (x / 2 powi (- 1 - 52)) < 6305039478318694"
      by (rule round_half_even_below_half)
    then have "rat_of_int (round_half_even (x / 2 powi (- 1 - 52))) < rat_of_int 6305039478318694"
      by (simp only: of_int_less_iff)
    then have "of_int (round_half_even (x / 2 powi (- 1 - 52))) * 2 powi (- 1 - 52)
        < rat_of_int 6305039478318694 * 2 powi (- 1 - 52)"
      by (simp only: mult_less_cancel_right_pos zero_less_power_int zero_less_numeral)
    then show ?thesis by (simp add: r)
  qed
  then show ?thesis using False by (simp add: x_def)
qed

lemma int_to_float_exact:
  assumes "0 \<le> i" "i < 2 ^ 53"
  shows "int_to_float i = Inr (of_int i)"
proof -
  have r: "round64 (of_int i) = of_int i"
  proof (cases "i = 0")
    case True
    then show ?thesis by (simp add: round64_def)
  next
    case False
    then have "0 < i" using assms(1) by simp
    then have "round64 (of_int i * 2 powi 0) = of_int i * 2 powi 0"
      using assms(2) by (rule round64_repr) simp
    then show ?thesis by simp
  qed
  have "rat_of_int i \<le> rat_of_int (2 ^ 53)" using assms(2) by (simp only: of_int_le_iff)
  then have "rat_of_int i \<le> 2 ^ 53" by simp
  also have "(2::rat) ^ 53 \<le> 2 ^ 60" by (rule power_increasing) simp_all
  finally have "rat_of_int i \<le> 2 ^ 60" .
  moreover have "0 \<le> rat_of_int i" using assms(1) by simp
  ultimately have "to_double (of_int i) = Finite (round64 (of_int i))"
    by (intro to_double_small)
  then show ?thesis by (simp add: int_to_float_def r)
qed

lemma int_mul_float_08:
  assumes "0 < a" "a < 2 ^ 50"
  shows "int_mul_float a (7205759403792794 / 2 ^ 53) =
           Inr (Finite (round64 (of_int a * (7205759403792794 / 2 ^ 53))))"
proof -
  have "a < 2 ^ 53" using assms(2) by simp
  then have c: "int_to_float a = Inr (of_int a)" using assms(1) by (intro int_to_float_exact) simp_all
  have "rat_of_int a \<le> rat_of_int (2 ^ 50)" using assms(2) by (simp only: of_int_le_iff)
  then have a50: "rat_of_int a \<le> 2 ^ 50" by simp
  have "rat_of_int a * (7205759403792794 / 2 ^ 53) \<le> rat_of_int a * 1"
    using assms(1) by (intro mult_left_mono) simp_all
  also have "\<dots> \<le> 2 ^ 50" using a50 by simp
  also have "(2::rat) ^ 50 \<le> 2 ^ 60" by (rule power_increasing) simp_all
  finally have "rat_of_int a * (7205759403792794 / 2 ^ 53) \<le> 2 ^ 60" .
  moreover have "0 \<le> rat_of_int a * (7205759403792794 / 2 ^ 53)" using assms(1) by simp
  ultimately have "to_double (rat_of_int a * (7205759403792794 / 2 ^ 53)) =
      Finite (round64 (rat_of_int a * (7205759403792794 / 2 ^ 53)))"
    by (intro to_double_small)
  then show ?thesis by (simp add: int_mul_float_def c float_mul_def)
qed

lemma scaled_tie:
  assumes "0 < d" "d < 2 ^ 50"
  shows "round64 (of_int d * (2 ^ 54 + 1) / 2 ^ 54) = of_int d"
proof -
  define x :: rat where "x = of_int d * (2 ^ 54 + 1) / 2 ^ 54"
  define e where "e = floor_log2 (of_int d)"
  define q :: rat where "q = 2 powi (e - 52)"
  have dpos: "0 < rat_of_int d" using assms(1) by simp
  have b: "2 powi e \<le> rat_of_int d" "rat_of_int d < 2 powi (e + 1)"
    using floor_log2_bounds [OF dpos] by (simp_all add: e_def)
  have qpos: "0 < q" by (simp add: q_def)
  have q52: "2 powi e = q * 2 ^ 52" by (simp add: q_def power_int_diff)
  have q53: "2 powi (e + 1) = q * 2 ^ 53" by (simp add: q_def power_int_diff power_int_add)
  have d50: "rat_of_int d < 2 ^ 50"
  proof -
    have "rat_of_int d < rat_of_int (2 ^ 50)" using assms(2) by (simp only: of_int_less_iff)
    then show ?thesis by simp
  qed
  have e49: "e \<le> 49"
  proof (rule ccontr)
    assume "\<not> e \<le> 49"
    then have "(2::rat) powi 50 \<le> 2 powi e" by (intro power_int_increasing) auto
    with b(1) d50 show False by simp
  qed
  have e0: "0 \<le> e"
  proof (rule ccontr)
    assume "\<not> 0 \<le> e"
    then have "(2::rat) powi (e + 1) \<le> 2 powi 0" by (intro power_int_increasing) auto
    moreover have "1 \<le> rat_of_int d" using assms(1) by (metis int_one_le_iff_zero_less of_int_1_le_iff)
    ultimately show False using b(2) by simp
  qed
  define K where "K = d * 2 ^ nat (0 - (e - 52))"
  have "rat_of_int d * 2 powi 0 / 2 powi (e - 52) = of_int K"
    unfolding K_def using e49 by (intro scaled_int) simp
  then have dK: "rat_of_int d / q = of_int K" by (simp add: q_def)
  have xd: "x = of_int d + of_int d / 2 ^ 54" by (simp add: x_def field_simps)
  have lo: "2 powi e \<le> x" using b(1) dpos by (simp add: xd)
  have int_lt: "d < 2 ^ nat (e + 1)"
  proof -
    have "(2::rat) powi (e + 1) = 2 ^ nat (e + 1)" using e0 by (simp add: power_int_nonneg_exp)
    then have "rat_of_int d < rat_of_int (2 ^ nat (e + 1))" using b(2) by simp
    then show ?thesis by (simp only: of_int_less_iff)
  qed
  then have "d + 1 \<le> 2 ^ nat (e + 1)" by simp
  then have "rat_of_int (d + 1) \<le> rat_of_int (2 ^ nat (e + 1))" by (simp only: of_int_le_iff)
  then have "rat_of_int d + 1 \<le> 2 powi (e + 1)" using e0 by (simp add: power_int_nonneg_exp)
  moreover have "rat_of_int d / 2 ^ 54 < 1" using d50 by simp
  ultimately have hi: "x < 2 powi (e + 1)" by (simp add: xd)
  have r: "round64 x = of_int (round_half_even (x / q)) * q"
    unfolding q_def using lo hi by (rule round64_binade) (use e0 in simp)
  have "x / q - of_int K = (of_int d / 2 ^ 54) / q"
    by (simp add: xd dK [symmetric] add_divide_distrib)
  moreover have "0 \<le> (rat_of_int d / 2 ^ 54) / q" using dpos qpos by simp
  moreover have "(rat_of_int d / 2 ^ 54) / q < 1 / 2"
  proof -
    have "rat_of_int d < q * 2 ^ 53" using b(2) by (simp only: q53)
    then show ?thesis using qpos by (simp add: field_simps)
  qed
  ultimately have "\<bar>x / q - of_int K\<bar> < 1 / 2" by simp
  then have "round_half_even (x / q) = K" by (rule round_half_even_unique)
  then have "round64 x = of_int K * q" by (simp add: r)
  also have "\<dots> = of_int d" using dK qpos by (simp add: field_simps)
  finally show ?thesis by (simp add: x_def)
qed

lemma scaled_test:
  assumes "0 < a" "a < 2 ^ 50" "0 < d" "d < 2 ^ 50"
  shows "(rat_of_int d \<ge> round64 (of_int a * (7205759403792794 / 2 ^ 53))) = (5 * d \<ge> 4 * a)"
proof -
  define x :: rat where "x = of_int a * (7205759403792794 / 2 ^ 53)"
  have xpos: "0 < x" using assms(1) by (simp add: x_def)
  consider "5 * d < 4 * a" | "4 * a < 5 * d" | "5 * d = 4 * a" by linarith
  then show ?thesis
  proof cases
    case 1
    have "(8 * d + 1) * 2 ^ 53 \<le> 8 * (a * 7205759403792794)" using 1 assms by simp
    then have "rat_of_int ((8 * d + 1) * 2 ^ 53) \<le> rat_of_int (8 * (a * 7205759403792794))"
      by (simp only: of_int_le_iff)
    then have "of_int (8 * d + 1) * 2 powi (- 3) \<le> x"
      by (simp add: x_def field_simps)
    then have "of_int (8 * d + 1) * 2 powi (- 3) \<le> round64 x"
      using assms by (intro round64_ge_repr) simp_all
    moreover have "rat_of_int d < of_int (8 * d + 1) * 2 powi (- 3)" by simp
    ultimately show ?thesis using 1 by (simp add: x_def)
  next
    case 2
    have "a * 7205759403792794 \<le> d * 2 ^ 53" using 2 assms by simp
    then have "rat_of_int (a * 7205759403792794) \<le> rat_of_int (d * 2 ^ 53)"
      by (simp only: of_int_le_iff)
    then have "x \<le> of_int d * 2 powi 0" by (simp add: x_def field_simps)
    with xpos have "round64 x \<le> of_int d * 2 powi 0"
      using assms by (intro round64_le_repr) simp_all
    then show ?thesis using 2 by (simp add: x_def)
  next
    case 3
    have "rat_of_int (4 * a) = rat_of_int (5 * d)" using 3 by simp
    then have "4 * rat_of_int a = 5 * rat_of_int d" by simp
    then have "rat_of_int a = 5 * rat_of_int d / 4" by simp
    then have xeq: "x = of_int d * (2 ^ 54 + 1) / 2 ^ 54" by (simp add: x_def)
    have "round64 x = of_int d" unfolding xeq using assms(3,4) by (rule scaled_tie)
    then show ?thesis using 3 by (simp add: x_def)
  qed
qed

lemma detect_pattern_exact:
  assumes "0 \<le> a" "0 \<le> d" "9 * (a + d) < 2 ^ 53"
  shows "detect_pattern a d = Inr (classify_spec a d)"
proof (cases "a + d = 0")
  case True
  then show ?thesis by (simp add: detect_pattern_def classify_spec_def)
next
  case False
  define t where "t = a + d"
  define c7 where "c7 = float_literal (7 / 10)"
  define c8 where "c8 = float_literal (8 / 10)"
  have c7v: "c7 = 6305039478318694 / 2 ^ 53" by (simp only: c7_def literal_07)
  have c8v: "c8 = 7205759403792794 / 2 ^ 53" by (simp only: c8_def literal_08)
  have tne: "t \<noteq> 0" using False by (simp add: t_def)
  have tpos: "0 < t" using False assms by (simp add: t_def)
  have t9: "9 * t < 2 ^ 53" using assms(3) by (simp add: t_def)
  have at: "a \<le> t" and dt: "d \<le> t" using assms by (simp_all add: t_def)
  have da: "int_truediv a t = Inr (round64 (of_int a / of_int t))"
    using assms(1) at tpos by (rule int_truediv_ratio)
  have dd: "int_truediv d t = Inr (round64 (of_int d / of_int t))"
    using assms(2) dt tpos by (rule int_truediv_ratio)
  have ra: "(round64 (of_int a / of_int t) \<ge> c7) = (10 * a \<ge> 7 * t)"
    unfolding c7v using assms(1) at tpos t9 by (rule ratio_test)
  have rd: "(round64 (of_int d / of_int t) \<ge> c7) = (10 * d \<ge> 7 * t)"
    unfolding c7v using assms(2) dt tpos t9 by (rule ratio_test)
  have a50: "a < 2 ^ 50" and d50: "d < 2 ^ 50" using assms by simp_all
  have body: "detect_pattern a d =
     (if 10 * a \<ge> 7 * t then Inr ''growth''
      else if 10 * d \<ge> 7 * t then Inr ''cleanup''
      else if a > 600 \<and> d > 600 then
        (case int_mul_float a c8 of Inl e \<Rightarrow> Inl e | Inr x \<Rightarrow>
         if int_ge_float d x then
           (case int_mul_float d c8 of Inl e \<Rightarrow> Inl e | Inr y \<Rightarrow>
            if int_ge_float a y then Inr ''churn'' else Inr ''normal'')
         else Inr ''normal'')
      else Inr ''normal'')"
    unfolding detect_pattern_def Let_def c7_def [symmetric] c8_def [symmetric] t_def [symmetric]
    by (simp only: tne if_False da dd sum.case ra rd)
  have rt: "0 < rat_of_int t" using tpos by simp
  have qa: "(rat_of_int a / of_int t \<ge> 7 / 10) = (10 * a \<ge> 7 * t)"
  proof -
    have "(rat_of_int a / of_int t \<ge> 7 / 10) = (rat_of_int (7 * t) \<le> rat_of_int (10 * a))"
      using rt by (simp add: field_simps)
    then show ?thesis by (simp only: of_int_le_iff)
  qed
  have qd: "(rat_of_int d / of_int t \<ge> 7 / 10) = (10 * d \<ge> 7 * t)"
  proof -
    have "(rat_of_int d / of_int t \<ge> 7 / 10) = (rat_of_int (7 * t) \<le> rat_of_int (10 * d))"
      using rt by (simp add: field_simps)
    then show ?thesis by (simp only: of_int_le_iff)
  qed
  have pa: "(rat_of_int d \<ge> 8 / 10 * of_int a) = (5 * d \<ge> 4 * a)"
  proof -
    have "(rat_of_int d \<ge> 8 / 10 * of_int a) = (rat_of_int (4 * a) \<le> rat_of_int (5 * d))"
      by (simp add: mult.commute)
    then show ?thesis by (simp only: of_int_le_iff)
  qed
  have pd: "(rat_of_int a \<ge> 8 / 10 * of_int d) = (5 * a \<ge> 4 * d)"
  proof -
    have "(rat_of_int a \<ge> 8 / 10 * of_int d) = (rat_of_int (4 * d) \<le> rat_of_int (5 * a))"
      by (simp add: mult.commute)
    then show ?thesis by (simp only: of_int_le_iff)
  qed
  have spec: "classify_spec a d =
     (if 10 * a \<ge> 7 * t then ''growth''
      else if 10 * d \<ge> 7 * t then ''cleanup''
      else if a > 600 \<and> d > 600 \<and> 5 * d \<ge> 4 * a \<and> 5 * a \<ge> 4 * d then ''churn''
      else ''normal'')"
    unfolding classify_spec_def t_def [symmetric] by (simp only: tne if_False qa qd pa pd)
  show ?thesis
  proof (cases "a > 600 \<and> d > 600")
    case True
    then have apos: "0 < a" and dpos: "0 < d" by simp_all
    have ma: "int_mul_float a c8 = Inr (Finite (round64 (of_int a * c8)))"
      unfolding c8v using apos a50 by (rule int_mul_float_08)
    have md: "int_mul_float d c8 = Inr (Finite (round64 (of_int d * c8)))"
      unfolding c8v using dpos d50 by (rule int_mul_float_08)
    have ta: "(rat_of_int d \<ge> round64 (of_int a * c8)) = (5 * d \<ge> 4 * a)"
      unfolding c8v using apos a50 dpos d50 by (rule scaled_test)
    have td: "(rat_of_int a \<ge> round64 (of_int d * c8)) = (5 * a \<ge> 4 * d)"
      unfolding c8v using dpos d50 apos a50 by (rule scaled_test)
    show ?thesis
      unfolding body spec using True by (simp add: ma md ta td)
  next
    case False
    show ?thesis
      unfolding body spec using False by auto
  qed
qed

subsection \<open>The pattern classifier\<close>

lemma round64_near_07:
  "round64 (700559942035417 / 1000799917193453) = 6305039478318694 / 2 ^ 53"
proof -
  have "round64 (700559942035417 / 1000799917193453) =
      of_int (round_half_even ((700559942035417 / 1000799917193453) / 2 powi (- 1 - 52))) *
        2 powi (- 1 - 52)"
    by (rule round64_binade) simp_all
  moreover have
    "round_half_even ((700559942035417 / 1000799917193453) / 2 powi (- 1 - 52)) =
       6305039478318694"
    by (rule round_half_even_unique) simp
  ultimately show ?thesis by simp
qed

text \<open>
  C1 (as stated, for all non-negative integers): with 700559942035417 additions and
  300239975158036 deletions the exact ratio of additions is below 0.7 and no other rule
  applies, so the rule of the specification gives \<open>normal\<close>; the quotient rounds to the
  same double as the literal \<open>0.7\<close>, and the code returns \<open>growth\<close>.
\<close>

theorem detect_pattern_large_counterexample:
  "detect_pattern 700559942035417 300239975158036 = Inr ''growth'' \<and>
   classify_spec 700559942035417 300239975158036 = ''normal''"
proof -
  have a: "int_truediv 700559942035417 1000799917193453 =
      Inr (round64 (of_int 700559942035417 / of_int 1000799917193453))"
    by (rule int_truediv_ratio) simp_all
  have d: "int_truediv 300239975158036 1000799917193453 =
      Inr (round64 (of_int 300239975158036 / of_int 1000799917193453))"
    by (rule int_truediv_ratio) simp_all
  have "detect_pattern 700559942035417 300239975158036 = Inr ''growth''"
    unfolding detect_pattern_def Let_def literal_07
    using a d round64_near_07 by simp
  moreover have "classify_spec 700559942035417 300239975158036 = ''normal''"
    by (simp add: classify_spec_def)
  ultimately show ?thesis by simp
qed

text \<open>
  C1 (amended): for all non-negative additions and deletions whose sum is below
  \<open>2^53 / 9\<close> (about \<open>10^15\<close>), \<open>detect_pattern\<close> returns the label of the rule of the
  specification, first match winning: \<open>normal\<close> for an empty change, else \<open>growth\<close> when
  additions are at least 70% of the total, else \<open>cleanup\<close> when deletions are, else
  \<open>churn\<close> exactly when both exceed 600 and each is at least 80% of the other, else
  \<open>normal\<close>. In particular (1000, 900) and (1000, 800) are \<open>churn\<close> and (1000, 799) is
  not.
\<close>

theorem detect_pattern_rule_order:
  assumes "0 \<le> additions" "0 \<le> deletions" "9 * (additions + deletions) < 2 ^ 53"
  shows "detect_pattern additions deletions = Inr (classify_spec additions deletions) \<and>
         detect_pattern 1000 900 = Inr ''churn'' \<and>
         detect_pattern 1000 800 = Inr ''churn'' \<and>
         detect_pattern 1000 799 = Inr ''normal''"
proof -
  have "detect_pattern 1000 900 = Inr (classify_spec 1000 900)"
    by (rule detect_pattern_exact) simp_all
  moreover have "detect_pattern 1000 800 = Inr (classify_spec 1000 800)"
    by (rule detect_pattern_exact) simp_all
  moreover have "detect_pattern 1000 799 = Inr (classify_spec 1000 799)"
    by (rule detect_pattern_exact) simp_all
  ultimately show ?thesis
    using detect_pattern_exact [OF assms] by (simp add: classify_spec_def)
qed

theorem detect_pattern_rule_order_witness:
  "detect_pattern 700 300 = Inr ''growth'' \<and> detect_pattern 300 700 = Inr ''cleanup'' \<and>
   detect_pattern 0 0 = Inr ''normal'' \<and> detect_pattern 601 601 = Inr ''churn''"
  using detect_pattern_rule_order [of 700 300] detect_pattern_rule_order [of 300 700]
    detect_pattern_rule_order [of 0 0] detect_pattern_rule_order [of 601 601]
  by (simp add: classify_spec_def)

subsection \<open>The aggregate\<close>

lemma folded_Nil: "folded [] = new_metrics"
  by (simp add: folded_def new_metrics_def)

lemma folded_snoc:
  "folded (cs @ [(n, a, d, p)]) =
     (folded cs)\<lparr>ns_additions := ns_additions (folded cs) + a,
                  ns_deletions := ns_deletions (folded cs) + d,
                  ns_total := ns_total (folded cs) + (a + d),
                  ns_file_count := ns_file_count (folded cs) + 1,
                  ns_files := ns_files (folded cs) @
                    [\<lparr>fd_path = p, fd_additions = a, fd_deletions = d, fd_total = a + d\<rparr>]\<rparr>"
  by (simp add: folded_def file_of_def)

text \<open>The state of the dictionary after the first loop, in closed form.\<close>

lemma foldl_add_change_map_of:
  "map_of (foldl add_change [] changes) ns =
     (if changes_of ns changes = [] then None else Some (folded (changes_of ns changes)))"
proof (induction changes rule: rev_induct)
  case Nil
  show ?case by (simp add: changes_of_def)
next
  case (snoc c cs)
  obtain n a d p where c: "c = (n, a, d, p)" by (cases c) auto
  show ?case
  proof (cases "n = ns")
    case True
    show ?thesis
      using snoc True
      by (simp add: c update_conv' changes_of_def folded_snoc folded_Nil Let_def)
  next
    case False
    show ?thesis
      using snoc False
      by (simp add: c update_conv' changes_of_def Let_def)
  qed
qed

lemma foldl_add_change_distinct: "distinct (map fst (foldl add_change [] changes))"
proof (induction changes rule: rev_induct)
  case Nil
  show ?case by simp
next
  case (snoc c cs)
  obtain n a d p where c: "c = (n, a, d, p)" by (cases c) auto
  show ?case using snoc by (simp add: c Let_def distinct_update)
qed

lemma finish_namespaces_entry:
  "finish_namespaces result = Inr out \<Longrightarrow> (ns, N) \<in> set out \<Longrightarrow>
     \<exists>m p. (ns, m) \<in> set result \<and> detect_pattern (ns_additions m) (ns_deletions m) = Inr p \<and>
       N = m\<lparr>ns_files := sort_reverse fd_total (ns_files m), ns_pattern := p\<rparr>"
proof (induction result arbitrary: out)
  case Nil
  then show ?case by simp
next
  case (Cons e result)
  obtain k m where e: "e = (k, m)" by (cases e) auto
  from Cons.prems(1) obtain p rest' where
    p: "detect_pattern (ns_additions m) (ns_deletions m) = Inr p" and
    r: "finish_namespaces result = Inr rest'" and
    out: "out = (k, m\<lparr>ns_files := sort_reverse fd_total (ns_files m), ns_pattern := p\<rparr>) # rest'"
    by (auto simp: e split: sum.splits)
  show ?case
  proof (cases "(ns, N) \<in> set rest'")
    case True
    from Cons.IH [OF r True] show ?thesis by auto
  next
    case False
    with Cons.prems(2) out p show ?thesis by (auto simp: e)
  qed
qed

lemma aggregate_entry:
  assumes "aggregate_with_details changes = Inr result" and "(ns, N) \<in> set result"
  shows "changes_of ns changes \<noteq> [] \<and>
    (\<exists>p. detect_pattern (ns_additions (folded (changes_of ns changes)))
            (ns_deletions (folded (changes_of ns changes))) = Inr p \<and>
      N = (folded (changes_of ns changes))
            \<lparr>ns_files := sort_reverse fd_total (map file_of (changes_of ns changes)),
             ns_pattern := p\<rparr>)"
proof -
  from assms obtain m p where
    m: "(ns, m) \<in> set (foldl add_change [] changes)" and
    p: "detect_pattern (ns_additions m) (ns_deletions m) = Inr p" and
    N: "N = m\<lparr>ns_files := sort_reverse fd_total (ns_files m), ns_pattern := p\<rparr>"
    unfolding aggregate_with_details_def by (blast dest: finish_namespaces_entry)
  from m have "map_of (foldl add_change [] changes) ns = Some m"
    by (simp add: foldl_add_change_distinct)
  then have ne: "changes_of ns changes \<noteq> []" and mm: "m = folded (changes_of ns changes)"
    by (auto simp: foldl_add_change_map_of split: if_splits)
  have "ns_files m = map file_of (changes_of ns changes)"
    by (simp add: mm folded_def)
  with ne p N mm show ?thesis by auto
qed

lemma sum_list_insort_key: "sum_list (map f (insort_key g x xs)) = f x + sum_list (map f xs)"
  for f :: "'a \<Rightarrow> int"
  by (induction xs) auto

lemma sum_list_sort_key: "sum_list (map f (sort_key g xs)) = sum_list (map f xs)"
  for f :: "'a \<Rightarrow> int"
  by (induction xs) (auto simp: sum_list_insort_key)

lemma sum_split:
  "(\<Sum>(n, a, d, p) \<leftarrow> cs. a + d) = (\<Sum>(n, a, d, p) \<leftarrow> cs. a) + (\<Sum>(n, a, d, p) \<leftarrow> cs. d)"
  for cs :: "change list"
  by (induction cs) auto

lemma sum_fd_total:
  "sum_list (map (fd_total \<circ> file_of) cs) = (\<Sum>(n, a, d, p) \<leftarrow> cs. a + d)"
  by (induction cs) (auto simp: file_of_def)

lemma detect_pattern_45_23: "detect_pattern 45 23 = Inr ''normal''"
proof -
  have "detect_pattern 45 23 = Inr (classify_spec 45 23)"
    by (rule detect_pattern_exact) simp_all
  then show ?thesis by (simp add: classify_spec_def)
qed

lemma aggregate_single:
  "aggregate_with_details [(X, 45, 23, p)] =
     Inr [(X, \<lparr>ns_additions = 45, ns_deletions = 23, ns_total = 68, ns_file_count = 1,
               ns_files = [\<lparr>fd_path = p, fd_additions = 45, fd_deletions = 23, fd_total = 68\<rparr>],
               ns_pattern = ''normal''\<rparr>)]"
  by (simp add: aggregate_with_details_def new_metrics_def detect_pattern_45_23 sort_reverse_def)

text \<open>
  C3: every namespace aggregate \<open>N\<close> in a result of \<open>aggregate_with_details\<close> has
  \<open>total = additions + deletions\<close>, which is also the sum of the totals of its files;
  its additions, deletions and file count are the sums and the number of the input tuples
  of its namespace. One record (X, 45, 23, p) gives additions 45, deletions 23, total 68
  and file count 1.
\<close>

theorem aggregate_totals:
  assumes "aggregate_with_details changes = Inr result" and "(ns, N) \<in> set result"
  shows "ns_total N = ns_additions N + ns_deletions N \<and>
         ns_total N = sum_list (map fd_total (ns_files N)) \<and>
         ns_additions N = (\<Sum>(n, a, d, p) \<leftarrow> changes_of ns changes. a) \<and>
         ns_deletions N = (\<Sum>(n, a, d, p) \<leftarrow> changes_of ns changes. d) \<and>
         ns_file_count N = int (length (changes_of ns changes)) \<and>
         aggregate_with_details [(X, 45, 23, path)] =
           Inr [(X, \<lparr>ns_additions = 45, ns_deletions = 23, ns_total = 68, ns_file_count = 1,
                     ns_files = [\<lparr>fd_path = path, fd_additions = 45, fd_deletions = 23,
                                  fd_total = 68\<rparr>],
                     ns_pattern = ''normal''\<rparr>)]"
  using aggregate_entry [OF assms] aggregate_single [of X path]
  by (auto simp: folded_def sum_split sort_reverse_def sum_list_sort_key sum_fd_total)

theorem aggregate_totals_witness:
  "ns_total \<lparr>ns_additions = 45, ns_deletions = 23, ns_total = 68, ns_file_count = 1,
      ns_files = [\<lparr>fd_path = ''a.cs'', fd_additions = 45, fd_deletions = 23, fd_total = 68\<rparr>],
      ns_pattern = ''normal''\<rparr> = 45 + 23 \<and>
   aggregate_with_details [(''X'', 45, 23, ''a.cs'')] =
     Inr [(''X'', \<lparr>ns_additions = 45, ns_deletions = 23, ns_total = 68, ns_file_count = 1,
        ns_files = [\<lparr>fd_path = ''a.cs'', fd_additions = 45, fd_deletions = 23, fd_total = 68\<rparr>],
        ns_pattern = ''normal''\<rparr>)]"
  using aggregate_totals [OF aggregate_single [of "''X''" "''a.cs''"], of "''X''" _ "''X''" "''a.cs''"]
  by simp

lemma detect_pattern_8_6: "detect_pattern 8 6 = Inr ''normal''"
proof -
  have "detect_pattern 8 6 = Inr (classify_spec 8 6)"
    by (rule detect_pattern_exact) simp_all
  then show ?thesis by (simp add: classify_spec_def)
qed

lemma aggregate_three:
  "aggregate_with_details [(''X'', 1, 1, ''a.cs''), (''X'', 5, 5, ''b.cs''), (''X'', 2, 0, ''c.cs'')] =
     Inr [(''X'', \<lparr>ns_additions = 8, ns_deletions = 6, ns_total = 14, ns_file_count = 3,
        ns_files = [\<lparr>fd_path = ''b.cs'', fd_additions = 5, fd_deletions = 5, fd_total = 10\<rparr>,
                    \<lparr>fd_path = ''a.cs'', fd_additions = 1, fd_deletions = 1, fd_total = 2\<rparr>,
                    \<lparr>fd_path = ''c.cs'', fd_additions = 2, fd_deletions = 0, fd_total = 2\<rparr>],
        ns_pattern = ''normal''\<rparr>)]"
  by (simp add: aggregate_with_details_def new_metrics_def detect_pattern_8_6 sort_reverse_def)

text \<open>
  C7: in every result of \<open>aggregate_with_details\<close> the file list of a namespace is in
  descending order of the files' totals, and the files of one total stand in the order
  of the input tuples of that namespace; no file is lost or added.
\<close>

theorem files_sorted_stable:
  assumes "aggregate_with_details changes = Inr result" and "(ns, N) \<in> set result"
  shows "sorted_wrt (\<lambda>f g. fd_total f \<ge> fd_total g) (ns_files N) \<and>
         (\<forall>k. filter (\<lambda>f. fd_total f = k) (ns_files N) =
              filter (\<lambda>f. fd_total f = k) (map file_of (changes_of ns changes))) \<and>
         length (ns_files N) = length (changes_of ns changes)"
proof -
  let ?fs = "map file_of (changes_of ns changes)"
  from aggregate_entry [OF assms] have files: "ns_files N = sort_reverse fd_total ?fs"
    by auto
  have "sorted (map (\<lambda>x. - fd_total x) (sort_key (\<lambda>x. - fd_total x) ?fs))"
    by (rule sorted_sort_key)
  then have s: "sorted_wrt (\<lambda>f g. fd_total f \<ge> fd_total g) (sort_reverse fd_total ?fs)"
    by (simp add: sort_reverse_def sorted_wrt_map)
  have st: "filter (\<lambda>f. fd_total f = k) (sort_reverse fd_total ?fs) =
      filter (\<lambda>f. fd_total f = k) ?fs" for k
    using sort_key_stable [of "\<lambda>x. - fd_total x" "- k" ?fs]
    by (simp add: sort_reverse_def)
  show ?thesis using s st by (simp add: files sort_reverse_def)
qed

theorem files_sorted_stable_witness:
  "aggregate_with_details [(''X'', 1, 1, ''a.cs''), (''X'', 5, 5, ''b.cs''), (''X'', 2, 0, ''c.cs'')] =
     Inr [(''X'', \<lparr>ns_additions = 8, ns_deletions = 6, ns_total = 14, ns_file_count = 3,
        ns_files = [\<lparr>fd_path = ''b.cs'', fd_additions = 5, fd_deletions = 5, fd_total = 10\<rparr>,
                    \<lparr>fd_path = ''a.cs'', fd_additions = 1, fd_deletions = 1, fd_total = 2\<rparr>,
                    \<lparr>fd_path = ''c.cs'', fd_additions = 2, fd_deletions = 0, fd_total = 2\<rparr>],
        ns_pattern = ''normal''\<rparr>)] \<and>
   sorted_wrt (\<lambda>f g. fd_total f \<ge> fd_total g)
     [\<lparr>fd_path = ''b.cs'', fd_additions = 5, fd_deletions = 5, fd_total = 10\<rparr>,
      \<lparr>fd_path = ''a.cs'', fd_additions = 1, fd_deletions = 1, fd_total = 2\<rparr>,
      \<lparr>fd_path = ''c.cs'', fd_additions = 2, fd_deletions = 0, fd_total = 2\<rparr>]"
  using files_sorted_stable [OF aggregate_three, of "''X''"] aggregate_three
  by simp

lemma finish_namespaces_returns:
  "\<forall>(ns, m) \<in> set na. \<exists>p. detect_pattern (ns_additions m) (ns_deletions m) = Inr p \<Longrightarrow>
     \<exists>out. finish_namespaces na = Inr out"
proof (induction na)
  case Nil
  show ?case by simp
next
  case (Cons x na)
  obtain ns m where x: "x = (ns, m)" by (cases x) auto
  from Cons.prems obtain p where p: "detect_pattern (ns_additions m) (ns_deletions m) = Inr p"
    by (auto simp: x)
  from Cons.IH Cons.prems obtain out where "finish_namespaces na = Inr out" by auto
  with p show ?case by (simp add: x)
qed

lemma sums_in_range:
  fixes cs :: "change list"
  assumes "\<forall>(n, a, d, p) \<in> set cs. 0 \<le> a \<and> 0 \<le> d"
  shows "0 \<le> (\<Sum>(n, a, d, p) \<leftarrow> filter P cs. a) \<and> 0 \<le> (\<Sum>(n, a, d, p) \<leftarrow> filter P cs. d) \<and>
         (\<Sum>(n, a, d, p) \<leftarrow> filter P cs. a) + (\<Sum>(n, a, d, p) \<leftarrow> filter P cs. d) \<le>
           (\<Sum>(n, a, d, p) \<leftarrow> cs. a + d)"
  using assms by (induction cs) auto

text \<open>
  With non-negative counts whose sum stays below \<open>2^53 / 9\<close> the aggregation returns: no
  pattern detection raises.
\<close>

lemma aggregate_with_details_returns:
  assumes "\<forall>(n, a, d, p) \<in> set changes. 0 \<le> a \<and> 0 \<le> d"
    and "9 * (\<Sum>(n, a, d, p) \<leftarrow> changes. a + d) < 2 ^ 53"
  shows "\<exists>result. aggregate_with_details changes = Inr result"
proof -
  have "\<exists>p. detect_pattern (ns_additions m) (ns_deletions m) = Inr p"
    if "(ns, m) \<in> set (foldl add_change [] changes)" for ns m
  proof -
    from that have "map_of (foldl add_change [] changes) ns = Some m"
      by (simp add: foldl_add_change_distinct)
    then have m: "m = folded (changes_of ns changes)"
      by (auto simp: foldl_add_change_map_of split: if_splits)
    from sums_in_range [OF assms(1), of "\<lambda>c. fst c = ns"] assms(2)
    have "0 \<le> ns_additions m" "0 \<le> ns_deletions m"
      "9 * (ns_additions m + ns_deletions m) < 2 ^ 53"
      by (simp_all add: m folded_def changes_of_def)
    then have "detect_pattern (ns_additions m) (ns_deletions m) =
        Inr (classify_spec (ns_additions m) (ns_deletions m))"
      by (rule detect_pattern_exact)
    then show ?thesis by blast
  qed
  then have "\<forall>(ns, m) \<in> set (foldl add_change [] changes).
      \<exists>p. detect_pattern (ns_additions m) (ns_deletions m) = Inr p"
    by auto
  then show ?thesis
    unfolding aggregate_with_details_def by (rule finish_namespaces_returns)
qed

subsection \<open>Ownership\<close>

lemma update_fresh: "k \<notin> fst ` set xs \<Longrightarrow> AList.update k v xs = xs @ [(k, v)]"
  by (induction xs) auto

lemma update_last_key:
  "k \<notin> fst ` set xs \<Longrightarrow> AList.update k v (xs @ [(k, w)]) = xs @ [(k, v)]"
  by (induction xs) auto

lemma map_of_last_key: "k \<notin> fst ` set xs \<Longrightarrow> map_of (xs @ [(k, w)]) k = Some w"
  by (induction xs) auto

lemma lines_in_snoc:
  "lines_in ns (cs @ [(n, f, l)]) = (if n = ns then lines_in ns cs @ [l] else lines_in ns cs)"
  by (simp add: lines_in_def)

lemma fold_author_map_of:
  assumes "\<And>k au. map_of na k = Some au \<Longrightarrow> author \<notin> fst ` set au"
  shows "map_of (foldl (add_observation author) na cs) ns =
    (if lines_in ns cs = [] then map_of na ns
     else Some ((case map_of na ns of None \<Rightarrow> [] | Some au \<Rightarrow> au) @
                [(author, sum_list (lines_in ns cs))]))"
proof (induction cs arbitrary: ns rule: rev_induct)
  case Nil
  show ?case by (simp add: lines_in_def)
next
  case (snoc c cs)
  obtain n f l where c: "c = (n, f, l)" by (cases c) auto
  define st where "st = foldl (add_observation author) na cs"
  define base where "base = (case map_of na n of None \<Rightarrow> [] | Some au \<Rightarrow> au)"
  have fresh: "author \<notin> fst ` set base"
  proof (cases "map_of na n")
    case None
    then show ?thesis by (simp add: base_def)
  next
    case (Some au)
    from assms [OF Some] show ?thesis by (simp add: base_def Some)
  qed
  have ih: "map_of st k =
    (if lines_in k cs = [] then map_of na k
     else Some ((case map_of na k of None \<Rightarrow> [] | Some au \<Rightarrow> au) @
                [(author, sum_list (lines_in k cs))]))" for k
    unfolding st_def by (rule snoc.IH)
  have step: "foldl (add_observation author) na (cs @ [c]) = add_observation author st c"
    by (simp add: st_def)
  show ?case
  proof (cases "n = ns")
    case False
    then show ?thesis
      unfolding step by (simp add: c update_conv' Let_def ih lines_in_snoc)
  next
    case same: True
    then have ns: "ns = n" by simp
    show ?thesis
      unfolding ns
    proof (cases "lines_in n cs = []")
      case True
      have au: "(case map_of st n of None \<Rightarrow> [] | Some au \<Rightarrow> au) = base"
        using ih [of n] True by (simp add: base_def)
      have v: "map_of base author = None" using fresh by (simp add: map_of_eq_None_iff)
      show "map_of (foldl (add_observation author) na (cs @ [c])) n =
        (if lines_in n (cs @ [c]) = [] then map_of na n
         else Some ((case map_of na n of None \<Rightarrow> [] | Some au \<Rightarrow> au) @
                    [(author, sum_list (lines_in n (cs @ [c])))]))"
        unfolding step using True
        by (simp add: c update_conv' Let_def au v update_fresh [OF fresh] lines_in_snoc
            base_def [symmetric])
    next
      case False
      have au: "(case map_of st n of None \<Rightarrow> [] | Some au \<Rightarrow> au) =
          base @ [(author, sum_list (lines_in n cs))]"
        using ih [of n] False by (simp add: base_def)
      have v: "map_of (base @ [(author, sum_list (lines_in n cs))]) author =
          Some (sum_list (lines_in n cs))"
        using fresh by (rule map_of_last_key)
      show "map_of (foldl (add_observation author) na (cs @ [c])) n =
        (if lines_in n (cs @ [c]) = [] then map_of na n
         else Some ((case map_of na n of None \<Rightarrow> [] | Some au \<Rightarrow> au) @
                    [(author, sum_list (lines_in n (cs @ [c])))]))"
        unfolding step using False
        by (simp add: c update_conv' Let_def au v update_last_key [OF fresh] lines_in_snoc
            base_def [symmetric] del: map_of_append)
    qed
  qed
qed

lemma add_observation_distinct:
  "distinct (map fst na) \<Longrightarrow> distinct (map fst (add_observation author na c))"
  by (cases c) (simp add: Let_def distinct_update)

lemma fold_author_distinct:
  "distinct (map fst na) \<Longrightarrow> distinct (map fst (foldl (add_observation author) na cs))"
  by (induction cs rule: rev_induct) (simp_all add: add_observation_distinct)

lemma collect_snoc:
  "collect_namespace_authors (ac @ [(a, cs)]) =
     foldl (add_observation a) (collect_namespace_authors ac) cs"
  by (simp add: collect_namespace_authors_def)

lemma collect_distinct: "distinct (map fst (collect_namespace_authors ac))"
proof (induction ac rule: rev_induct)
  case Nil
  show ?case by (simp add: collect_namespace_authors_def)
next
  case (snoc x ac)
  obtain a cs where x: "x = (a, cs)" by (cases x) auto
  show ?case using snoc by (simp add: x collect_snoc fold_author_distinct)
qed

lemma contributors_snoc:
  "contributors (ac @ [(a, cs)]) ns =
     contributors ac ns @
       (if lines_in ns cs = [] then [] else [(a, sum_list (lines_in ns cs))])"
  by (simp add: contributors_def)

lemma contributors_keys: "fst ` set (contributors ac ns) \<subseteq> fst ` set ac"
  by (auto simp: contributors_def intro: rev_image_eqI)

lemma collect_map_of:
  assumes "distinct (map fst ac)"
  shows "map_of (collect_namespace_authors ac) ns =
    (if contributors ac ns = [] then None else Some (contributors ac ns))"
  using assms
proof (induction ac arbitrary: ns rule: rev_induct)
  case Nil
  show ?case by (simp add: collect_namespace_authors_def contributors_def)
next
  case (snoc x ac)
  obtain a cs where x: "x = (a, cs)" by (cases x) auto
  from snoc.prems have d: "distinct (map fst ac)" and a: "a \<notin> fst ` set ac" by (auto simp: x)
  have ih: "map_of (collect_namespace_authors ac) k =
    (if contributors ac k = [] then None else Some (contributors ac k))" for k
    using d by (rule snoc.IH)
  have fresh: "a \<notin> fst ` set au" if "map_of (collect_namespace_authors ac) k = Some au" for k au
  proof -
    from that have "au = contributors ac k" by (simp add: ih split: if_splits)
    then show ?thesis using a contributors_keys [of ac k] by auto
  qed
  have base: "(case map_of (collect_namespace_authors ac) ns of None \<Rightarrow> [] | Some au \<Rightarrow> au) =
      contributors ac ns"
    by (simp add: ih)
  have "map_of (foldl (add_observation a) (collect_namespace_authors ac) cs) ns =
    (if lines_in ns cs = [] then map_of (collect_namespace_authors ac) ns
     else Some ((case map_of (collect_namespace_authors ac) ns of None \<Rightarrow> [] | Some au \<Rightarrow> au) @
                [(a, sum_list (lines_in ns cs))]))"
    by (rule fold_author_map_of) (rule fresh)
  then show ?case
    unfolding x collect_snoc by (simp add: base contributors_snoc ih)
qed

lemma collect_entry:
  assumes "distinct (map fst ac)" "(ns, authors) \<in> set (collect_namespace_authors ac)"
  shows "authors = contributors ac ns \<and> authors \<noteq> []"
proof -
  from assms(2) have "map_of (collect_namespace_authors ac) ns = Some authors"
    by (simp add: collect_distinct)
  then show ?thesis by (simp add: collect_map_of [OF assms(1)] split: if_splits)
qed

lemma collect_keys:
  assumes "distinct (map fst ac)"
  shows "fst ` set (collect_namespace_authors ac) = {ns. contributors ac ns \<noteq> []}"
proof -
  have "ns \<in> fst ` set (collect_namespace_authors ac) \<longleftrightarrow> contributors ac ns \<noteq> []" for ns
  proof -
    have "ns \<in> fst ` set (collect_namespace_authors ac) \<longleftrightarrow>
        map_of (collect_namespace_authors ac) ns \<noteq> None"
      by (simp add: map_of_eq_None_iff)
    then show ?thesis by (simp add: collect_map_of [OF assms])
  qed
  then show ?thesis by auto
qed

lemma max_from_mem: "max_from key b xs \<in> set (b # xs)"
  by (induction xs arbitrary: b) auto

lemma max_from_ge: "x \<in> set (b # xs) \<Longrightarrow> key x \<le> key (max_from key b xs)"
proof (induction xs arbitrary: b x)
  case Nil
  then show ?case by simp
next
  case (Cons y ys)
  define b' where "b' = (if key b < key y then y else b)"
  have mono: "key b' \<le> key (max_from key b' ys)"
    by (rule Cons.IH) simp
  have b: "key b \<le> key b'" and y: "key y \<le> key b'" by (simp_all add: b'_def)
  from Cons.prems consider "x = b" | "x = y" | "x \<in> set ys" by auto
  then have "key x \<le> key (max_from key b' ys)"
  proof cases
    case 1
    then show ?thesis using mono b by simp
  next
    case 2
    then show ?thesis using mono y by simp
  next
    case 3
    then show ?thesis by (intro Cons.IH) simp
  qed
  then show ?case by (simp add: b'_def)
qed

lemma py_max_props:
  assumes "xs \<noteq> []"
  shows "\<exists>m. py_max key xs = Inr m \<and> m \<in> set xs \<and> (\<forall>x \<in> set xs. key x \<le> key m)"
proof -
  from assms obtain y ys where xs: "xs = y # ys" by (cases xs) auto
  have "max_from key y ys \<in> set (y # ys)" by (rule max_from_mem)
  moreover have "\<forall>x \<in> set (y # ys). key x \<le> key (max_from key y ys)"
    by (intro ballI max_from_ge)
  ultimately show ?thesis unfolding xs by simp
qed

lemma round_half_even_error: "\<bar>of_int (round_half_even y) - y\<bar> \<le> 1 / 2"
proof -
  define f where "f = \<lfloor>y\<rfloor>"
  have fy: "of_int f \<le> y" "y < of_int f + 1" by (simp_all add: f_def) linarith
  show ?thesis
    using fy by (auto simp: round_half_even_def Let_def f_def [symmetric])
qed

lemma floor_log2_le:
  assumes "0 < x" "x < 2 powi (k + 1)"
  shows "floor_log2 x \<le> k"
proof (rule ccontr)
  assume "\<not> floor_log2 x \<le> k"
  then have "(2::rat) powi (k + 1) \<le> 2 powi (floor_log2 x)"
    by (intro power_int_increasing) auto
  with floor_log2_bounds [OF assms(1)] assms(2) show False by simp
qed

lemma round64_error_le:
  assumes "0 \<le> x" "x < 2 powi (k + 1)" "- 1022 \<le> k"
  shows "\<bar>round64 x - x\<bar> \<le> 2 powi (k - 53)"
proof (cases "x = 0")
  case True
  then show ?thesis by (simp add: round64_def)
next
  case False
  then have xpos: "0 < x" using assms(1) by simp
  define E where "E = max (floor_log2 x) (- 1022)"
  define q :: rat where "q = 2 powi (E - 52)"
  have qpos: "0 < q" by (simp add: q_def)
  have r: "round64 x = of_int (round_half_even (x / q)) * q"
    by (simp add: round64_pos [OF xpos] q_def E_def)
  have "E \<le> k" using floor_log2_le [OF xpos assms(2)] assms(3) by (simp add: E_def)
  then have qk: "q / 2 \<le> 2 powi (k - 53)"
  proof -
    assume "E \<le> k"
    then have "(2::rat) powi (E - 53) \<le> 2 powi (k - 53)" by (intro power_int_increasing) auto
    moreover have "q / 2 = 2 powi (E - 53)"
      by (simp add: q_def power_int_diff)
    ultimately show ?thesis by simp
  qed
  have "round64 x - x = (of_int (round_half_even (x / q)) - x / q) * q"
    using qpos by (simp add: r field_simps)
  then have "\<bar>round64 x - x\<bar> = \<bar>of_int (round_half_even (x / q)) - x / q\<bar> * q"
    using qpos by (simp add: abs_mult)
  also have "\<dots> \<le> 1 / 2 * q"
    using round_half_even_error [of "x / q"] qpos by (intro mult_right_mono) simp_all
  finally show ?thesis using qk by simp
qed

lemma percent_value:
  assumes "0 \<le> p" "p \<le> t" "0 < t"
  shows "\<exists>r. int_truediv p t = Inr (round64 (of_int p / of_int t)) \<and>
            float_mul_int (round64 (of_int p / of_int t)) 100 = Inr (Finite r) \<and>
            \<bar>r - of_int p / of_int t * 100\<bar> \<le> 2 powi (- 45)"
proof -
  define x :: rat where "x = of_int p / of_int t"
  define y :: rat where "y = round64 x * 100"
  have x0: "0 \<le> x" and x1: "x \<le> 1" using assms by (simp_all add: x_def)
  have r0: "0 \<le> round64 x" using x0 by (rule round64_nonneg)
  have r1: "round64 x \<le> 1"
  proof (cases "x = 0")
    case True
    then show ?thesis by (simp add: round64_def)
  next
    case False
    then have "0 < x" using x0 by simp
    moreover have "x \<le> of_int 1 * 2 powi 0" using x1 by simp
    ultimately have "round64 x \<le> of_int 1 * 2 powi 0" by (rule round64_le_repr) simp_all
    then show ?thesis by simp
  qed
  have ex: "\<bar>round64 x - x\<bar> \<le> 2 powi (0 - 53)"
    using x0 x1 by (intro round64_error_le) simp_all
  have y0: "0 \<le> y" and y100: "y \<le> 100" using r0 r1 by (simp_all add: y_def)
  have ey: "\<bar>round64 y - y\<bar> \<le> 2 powi (6 - 53)"
    using y0 y100 by (intro round64_error_le) simp_all
  have c: "int_to_float 100 = Inr (of_int 100)" by (rule int_to_float_exact) simp_all
  have "y \<le> 2 ^ 60" using y100 by (rule order_trans) simp
  with y0 have "to_double y = Finite (round64 y)" by (rule to_double_small)
  then have m: "float_mul_int (round64 x) 100 = Inr (Finite (round64 y))"
    using c by (simp add: float_mul_int_def float_mul_def y_def)
  have d: "int_truediv p t = Inr (round64 x)"
    unfolding x_def using assms by (rule int_truediv_ratio)
  have eq: "round64 y - x * 100 = (round64 y - y) + (round64 x - x) * 100"
    by (simp add: y_def algebra_simps)
  have "\<bar>round64 y - x * 100\<bar> = \<bar>(round64 y - y) + (round64 x - x) * 100\<bar>"
    by (simp only: eq)
  also have "\<dots> \<le> \<bar>round64 y - y\<bar> + \<bar>(round64 x - x) * 100\<bar>"
    by (rule abs_triangle_ineq)
  also have "\<dots> = \<bar>round64 y - y\<bar> + \<bar>round64 x - x\<bar> * 100"
    by (subst abs_mult) simp
  also have "\<dots> \<le> 2 powi (6 - 53) + 2 powi (0 - 53) * 100"
    using ex ey by (intro add_mono mult_right_mono) simp_all
  also have "\<dots> \<le> 2 powi (- 45)" by simp
  finally show ?thesis using d m by (auto simp: x_def)
qed

lemma member_le_sum_list_int:
  fixes vs :: "int list"
  assumes "\<forall>v \<in> set vs. 0 \<le> v" "x \<in> set vs"
  shows "x \<le> sum_list vs"
  using assms
proof (induction vs)
  case Nil
  then show ?case by simp
next
  case (Cons v vs)
  have "0 \<le> sum_list vs" using Cons.prems(1) by (intro sum_list_nonneg) simp
  then show ?case using Cons by auto
qed

lemma ownership_of_props:
  assumes "authors \<noteq> []" "\<forall>x \<in> set authors. 0 \<le> snd x"
  shows "\<exists>e. ownership_of authors = Inr e \<and>
     all_authors e = authors \<and>
     (primary_author e, primary_lines e) \<in> set authors \<and>
     (\<forall>x \<in> set authors. snd x \<le> primary_lines e) \<and>
     total_lines e = sum_list (map snd authors) \<and>
     (if total_lines e = 0 then ownership_percent e = Finite 0
      else \<exists>r. ownership_percent e = Finite r \<and>
             \<bar>r - of_int (primary_lines e) / of_int (total_lines e) * 100\<bar> \<le> 2 powi (- 45))"
proof -
  define t where "t = sum_list (map snd authors)"
  from py_max_props [OF assms(1), of snd] obtain m where
    m: "py_max snd authors = Inr m" "m \<in> set authors" "\<forall>x \<in> set authors. snd x \<le> snd m"
    by blast
  have nn: "\<forall>v \<in> set (map snd authors). 0 \<le> v" using assms(2) by simp
  have p0: "0 \<le> snd m" using assms(2) m(2) by simp
  have pt: "snd m \<le> t" unfolding t_def using nn by (rule member_le_sum_list_int) (use m(2) in simp)
  show ?thesis
  proof (cases "t > 0")
    case True
    from percent_value [OF p0 pt True] obtain r where
      r: "int_truediv (snd m) t = Inr (round64 (of_int (snd m) / of_int t))"
         "float_mul_int (round64 (of_int (snd m) / of_int t)) 100 = Inr (Finite r)"
         "\<bar>r - of_int (snd m) / of_int t * 100\<bar> \<le> 2 powi (- 45)"
      by blast
    show ?thesis
      using True m r by (simp add: ownership_of_def percent_expr_def Let_def t_def [symmetric])
  next
    case False
    then have "t = 0" using p0 pt by simp
    then show ?thesis
      using m by (simp add: ownership_of_def Let_def t_def [symmetric])
  qed
qed

lemma ownership_entries_props:
  assumes "\<forall>(ns, au) \<in> set na. au \<noteq> [] \<and> (\<forall>x \<in> set au. 0 \<le> snd x)"
  shows "\<exists>out. ownership_entries na = Inr out \<and> map fst out = map fst na \<and>
           (\<forall>(ns, e) \<in> set out. \<exists>au. (ns, au) \<in> set na \<and> ownership_of au = Inr e)"
  using assms
proof (induction na)
  case Nil
  show ?case by simp
next
  case (Cons x na)
  obtain ns au where x: "x = (ns, au)" by (cases x) auto
  from Cons.prems have au: "au \<noteq> []" "\<forall>x \<in> set au. 0 \<le> snd x" by (auto simp: x)
  from ownership_of_props [OF au] obtain e where e: "ownership_of au = Inr e" by blast
  from Cons.IH Cons.prems obtain out where
    out: "ownership_entries na = Inr out" "map fst out = map fst na"
      "\<forall>(ns, e) \<in> set out. \<exists>au. (ns, au) \<in> set na \<and> ownership_of au = Inr e"
    by auto
  show ?case using e out by (auto simp: x)
qed

lemma contributors_nonneg:
  assumes "\<forall>(author, changes) \<in> set ac. \<forall>(n, f, l) \<in> set changes. 0 \<le> l"
  shows "\<forall>x \<in> set (contributors ac ns). 0 \<le> snd x"
proof -
  have "0 \<le> sum_list (lines_in ns cs)" if "(a, cs) \<in> set ac" for a cs
    using assms that by (intro sum_list_nonneg) (auto simp: lines_in_def)
  then show ?thesis by (auto simp: contributors_def)
qed

lemma calculate_ownership_props:
  assumes "distinct (map fst author_changes)"
    and "\<forall>(author, changes) \<in> set author_changes. \<forall>(n, f, l) \<in> set changes. 0 \<le> l"
  shows "\<exists>ownership. calculate_ownership author_changes = Inr ownership \<and>
     fst ` set ownership = {ns. contributors author_changes ns \<noteq> []} \<and>
     (\<forall>(ns, e) \<in> set ownership.
        all_authors e = contributors author_changes ns \<and>
        (primary_author e, primary_lines e) \<in> set (contributors author_changes ns) \<and>
        (\<forall>(a, v) \<in> set (contributors author_changes ns). v \<le> primary_lines e) \<and>
        total_lines e = sum_list (map snd (contributors author_changes ns)) \<and>
        (if total_lines e = 0 then ownership_percent e = Finite 0
         else \<exists>r. ownership_percent e = Finite r \<and>
                \<bar>r - of_int (primary_lines e) / of_int (total_lines e) * 100\<bar> \<le> 2 powi (- 45)))"
proof -
  define na where "na = collect_namespace_authors author_changes"
  have entry: "au = contributors author_changes ns \<and> au \<noteq> []" if "(ns, au) \<in> set na" for ns au
    using collect_entry [OF assms(1)] that by (simp add: na_def)
  have ok: "\<forall>(ns, au) \<in> set na. au \<noteq> [] \<and> (\<forall>x \<in> set au. 0 \<le> snd x)"
    using entry contributors_nonneg [OF assms(2)] by auto
  from ownership_entries_props [OF ok] obtain out where
    out: "ownership_entries na = Inr out" "map fst out = map fst na"
      "\<forall>(ns, e) \<in> set out. \<exists>au. (ns, au) \<in> set na \<and> ownership_of au = Inr e"
    by blast
  have keys: "fst ` set out = {ns. contributors author_changes ns \<noteq> []}"
  proof -
    have "fst ` set out = set (map fst out)" by simp
    also have "\<dots> = fst ` set na" by (simp add: out(2))
    finally show ?thesis by (simp add: na_def collect_keys [OF assms(1)])
  qed
  have each: "all_authors e = contributors author_changes ns \<and>
        (primary_author e, primary_lines e) \<in> set (contributors author_changes ns) \<and>
        (\<forall>(a, v) \<in> set (contributors author_changes ns). v \<le> primary_lines e) \<and>
        total_lines e = sum_list (map snd (contributors author_changes ns)) \<and>
        (if total_lines e = 0 then ownership_percent e = Finite 0
         else \<exists>r. ownership_percent e = Finite r \<and>
                \<bar>r - of_int (primary_lines e) / of_int (total_lines e) * 100\<bar> \<le> 2 powi (- 45))"
    if "(ns, e) \<in> set out" for ns e
  proof -
    from out(3) that obtain au where au: "(ns, au) \<in> set na" "ownership_of au = Inr e" by auto
    from entry [OF au(1)] have c: "au = contributors author_changes ns" "au \<noteq> []" by blast+
    have nn: "\<forall>x \<in> set au. 0 \<le> snd x" using ok au(1) by auto
    from ownership_of_props [OF c(2) nn] au(2) show ?thesis by (auto simp: c(1))
  qed
  have all: "\<forall>(ns, e) \<in> set out.
        all_authors e = contributors author_changes ns \<and>
        (primary_author e, primary_lines e) \<in> set (contributors author_changes ns) \<and>
        (\<forall>(a, v) \<in> set (contributors author_changes ns). v \<le> primary_lines e) \<and>
        total_lines e = sum_list (map snd (contributors author_changes ns)) \<and>
        (if total_lines e = 0 then ownership_percent e = Finite 0
         else \<exists>r. ownership_percent e = Finite r \<and>
                \<bar>r - of_int (primary_lines e) / of_int (total_lines e) * 100\<bar> \<le> 2 powi (- 45))"
  proof (intro ballI)
    fix x assume x: "x \<in> set out"
    obtain ns e where xe: "x = (ns, e)" by (cases x) auto
    have xin: "(ns, e) \<in> set out" using x xe by simp
    show "case x of (ns, e) \<Rightarrow>
        all_authors e = contributors author_changes ns \<and>
        (primary_author e, primary_lines e) \<in> set (contributors author_changes ns) \<and>
        (\<forall>(a, v) \<in> set (contributors author_changes ns). v \<le> primary_lines e) \<and>
        total_lines e = sum_list (map snd (contributors author_changes ns)) \<and>
        (if total_lines e = 0 then ownership_percent e = Finite 0
         else \<exists>r. ownership_percent e = Finite r \<and>
                \<bar>r - of_int (primary_lines e) / of_int (total_lines e) * 100\<bar> \<le> 2 powi (- 45))"
      unfolding xe prod.case by (rule each [OF xin])
  qed
  have "calculate_ownership author_changes = Inr out"
    using out(1) by (simp add: calculate_ownership_def na_def)
  with keys all show ?thesis by blast
qed


lemma ownership_of_general:
  assumes "ownership_of authors = Inr e"
  shows "authors \<noteq> [] \<and> all_authors e = authors \<and>
     (primary_author e, primary_lines e) \<in> set authors \<and>
     (\<forall>x \<in> set authors. snd x \<le> primary_lines e) \<and>
     total_lines e = sum_list (map snd authors) \<and>
     (if total_lines e > 0
      then percent_expr (primary_lines e) (total_lines e) = Inr (ownership_percent e)
      else ownership_percent e = Finite 0)"
proof (cases "authors = []")
  case True
  with assms show ?thesis by (simp add: ownership_of_def)
next
  case False
  from py_max_props [OF False, of snd] obtain m where
    m: "py_max snd authors = Inr m" "m \<in> set authors" "\<forall>x \<in> set authors. snd x \<le> snd m"
    by blast
  show ?thesis
    using assms False m
    by (auto simp: ownership_of_def Let_def split: if_splits sum.splits)
qed

lemma ownership_entries_general:
  "ownership_entries na = Inr out \<Longrightarrow>
     map fst out = map fst na \<and>
     (\<forall>(ns, e) \<in> set out. \<exists>au. (ns, au) \<in> set na \<and> ownership_of au = Inr e)"
proof (induction na arbitrary: out)
  case Nil
  then show ?case by simp
next
  case (Cons x na)
  obtain ns au where x: "x = (ns, au)" by (cases x) auto
  from Cons.prems obtain e rest where
    e: "ownership_of au = Inr e" and r: "ownership_entries na = Inr rest" and
    out: "out = (ns, e) # rest"
    by (auto simp: x split: sum.splits)
  from Cons.IH [OF r] e show ?case by (auto simp: x out)
qed

lemma calculate_ownership_general:
  assumes "distinct (map fst author_changes)"
    and "calculate_ownership author_changes = Inr ownership"
  shows "fst ` set ownership = {ns. contributors author_changes ns \<noteq> []} \<and>
     (\<forall>(ns, e) \<in> set ownership.
        all_authors e = contributors author_changes ns \<and>
        (primary_author e, primary_lines e) \<in> set (contributors author_changes ns) \<and>
        (\<forall>(a, v) \<in> set (contributors author_changes ns). v \<le> primary_lines e) \<and>
        total_lines e = sum_list (map snd (contributors author_changes ns)) \<and>
        (if total_lines e > 0
         then percent_expr (primary_lines e) (total_lines e) = Inr (ownership_percent e)
         else ownership_percent e = Finite 0))"
proof -
  define na where "na = collect_namespace_authors author_changes"
  from assms(2) have o: "ownership_entries na = Inr ownership"
    by (simp add: calculate_ownership_def na_def)
  from ownership_entries_general [OF o] have
    k: "map fst ownership = map fst na" and
    en: "\<forall>(ns, e) \<in> set ownership. \<exists>au. (ns, au) \<in> set na \<and> ownership_of au = Inr e"
    by simp_all
  have keys: "fst ` set ownership = {ns. contributors author_changes ns \<noteq> []}"
  proof -
    have "fst ` set ownership = set (map fst ownership)" by simp
    also have "\<dots> = fst ` set na" by (simp add: k)
    finally show ?thesis by (simp add: na_def collect_keys [OF assms(1)])
  qed
  have all: "\<forall>(ns, e) \<in> set ownership.
        all_authors e = contributors author_changes ns \<and>
        (primary_author e, primary_lines e) \<in> set (contributors author_changes ns) \<and>
        (\<forall>(a, v) \<in> set (contributors author_changes ns). v \<le> primary_lines e) \<and>
        total_lines e = sum_list (map snd (contributors author_changes ns)) \<and>
        (if total_lines e > 0
         then percent_expr (primary_lines e) (total_lines e) = Inr (ownership_percent e)
         else ownership_percent e = Finite 0)"
  proof (intro ballI)
    fix x assume x: "x \<in> set ownership"
    obtain ns e where xe: "x = (ns, e)" by (cases x) auto
    from en x obtain au where au: "(ns, au) \<in> set na" "ownership_of au = Inr e"
      by (auto simp: xe)
    from collect_entry [OF assms(1)] au(1) have c: "au = contributors author_changes ns"
      by (simp add: na_def)
    have "all_authors e = contributors author_changes ns \<and>
        (primary_author e, primary_lines e) \<in> set (contributors author_changes ns) \<and>
        (\<forall>(a, v) \<in> set (contributors author_changes ns). v \<le> primary_lines e) \<and>
        total_lines e = sum_list (map snd (contributors author_changes ns)) \<and>
        (if total_lines e > 0
         then percent_expr (primary_lines e) (total_lines e) = Inr (ownership_percent e)
         else ownership_percent e = Finite 0)"
      using ownership_of_general [OF au(2)] unfolding c by auto
    then show "case x of (ns, e) \<Rightarrow>
        all_authors e = contributors author_changes ns \<and>
        (primary_author e, primary_lines e) \<in> set (contributors author_changes ns) \<and>
        (\<forall>(a, v) \<in> set (contributors author_changes ns). v \<le> primary_lines e) \<and>
        total_lines e = sum_list (map snd (contributors author_changes ns)) \<and>
        (if total_lines e > 0
         then percent_expr (primary_lines e) (total_lines e) = Inr (ownership_percent e)
         else ownership_percent e = Finite 0)"
      unfolding xe prod.case .
  qed
  from keys all show ?thesis by blast
qed

lemma round64_6_7: "round64 (300 / 350) = 7720456504063707 / 2 ^ 53"
proof -
  have "round64 (300 / 350) =
      of_int (round_half_even ((300 / 350) / 2 powi (- 1 - 52))) * 2 powi (- 1 - 52)"
    by (rule round64_binade) simp_all
  moreover have "round_half_even ((300 / 350) / 2 powi (- 1 - 52)) = 7720456504063707"
    by (rule round_half_even_unique) simp
  ultimately show ?thesis by simp
qed

lemma round64_percent:
  "round64 (7720456504063707 / 2 ^ 53 * 100) = 6031606643799771 / 2 ^ 46"
proof -
  have "round64 (7720456504063707 / 2 ^ 53 * 100) =
      of_int (round_half_even ((7720456504063707 / 2 ^ 53 * 100) / 2 powi (6 - 52))) *
        2 powi (6 - 52)"
    by (rule round64_binade) simp_all
  moreover have
    "round_half_even ((7720456504063707 / 2 ^ 53 * 100) / 2 powi (6 - 52)) = 6031606643799771"
    by (rule round_half_even_unique) simp
  ultimately show ?thesis by simp
qed

lemma percent_300_350:
  "int_truediv 300 350 = Inr (7720456504063707 / 2 ^ 53) \<and>
   float_mul_int (7720456504063707 / 2 ^ 53) 100 = Inr (Finite (6031606643799771 / 2 ^ 46))"
proof -
  have "int_truediv 300 350 = Inr (round64 (of_int 300 / of_int 350))"
    by (rule int_truediv_ratio) simp_all
  then have a: "int_truediv 300 350 = Inr (7720456504063707 / 2 ^ 53)"
    using round64_6_7 by simp
  have c: "int_to_float 100 = Inr (of_int 100)" by (rule int_to_float_exact) simp_all
  have "to_double (7720456504063707 / 2 ^ 53 * 100) =
      Finite (round64 (7720456504063707 / 2 ^ 53 * 100))"
    by (rule to_double_small) simp_all
  then have "float_mul (7720456504063707 / 2 ^ 53) 100 = Finite (6031606643799771 / 2 ^ 46)"
    unfolding float_mul_def by (simp only: round64_percent)
  then have "float_mul_int (7720456504063707 / 2 ^ 53) 100 =
      Inr (Finite (6031606643799771 / 2 ^ 46))"
    using c by (simp add: float_mul_int_def)
  with a show ?thesis by simp
qed

lemma ownership_example:
  "calculate_ownership [(''A'', [(''X'', ''a.cs'', 300)]), (''B'', [(''X'', ''b.cs'', 50)])] =
     Inr [(''X'', \<lparr>primary_author = ''A'', primary_lines = 300, total_lines = 350,
                   ownership_percent = Finite (6031606643799771 / 2 ^ 46),
                   all_authors = [(''A'', 300), (''B'', 50)]\<rparr>)]"
proof -
  have c: "collect_namespace_authors
      [(''A'', [(''X'', ''a.cs'', 300)]), (''B'', [(''X'', ''b.cs'', 50)])] =
      [(''X'', [(''A'', 300), (''B'', 50)])]"
    by (simp add: collect_namespace_authors_def)
  have "ownership_of [(''A'', 300), (''B'', 50)] =
      Inr \<lparr>primary_author = ''A'', primary_lines = 300, total_lines = 350,
           ownership_percent = Finite (6031606643799771 / 2 ^ 46),
           all_authors = [(''A'', 300), (''B'', 50)]\<rparr>"
    using percent_300_350 by (simp add: ownership_of_def percent_expr_def)
  then show ?thesis by (simp add: calculate_ownership_def c)
qed

lemma percent_close: "\<bar>6031606643799771 / 2 ^ 46 - 857 / 10\<bar> < (1 / 20 :: rat)"
  by simp


text \<open>
  C6: the line counts of the observations are counts, so none is negative, and the
  mapping is a dictionary, so each author occurs once. Then \<open>calculate_ownership\<close>
  returns; its result has one entry for each namespace with an observation; the entry
  lists the authors of the namespace with their summed lines; its primary author is one
  of them, \<open>primary_lines\<close> is that author's sum and is the maximum of the sums,
  \<open>total_lines\<close> is the sum over all of them; \<open>ownership_percent\<close> is 0 when
  \<open>total_lines = 0\<close> and otherwise the value of the expression
  \<open>primary_lines / total_lines * 100\<close> in binary64, which differs from the exact quotient
  by at most \<open>2^-45\<close>. With 300 lines of A and 50 lines of B in namespace X the primary
  author is A and the percentage is within 0.05 of 85.7.
\<close>

theorem calculate_ownership_primary:
  assumes "distinct (map fst author_changes)"
    and "\<forall>(author, changes) \<in> set author_changes. \<forall>(n, f, l) \<in> set changes. 0 \<le> l"
  shows
    "(\<exists>ownership. calculate_ownership author_changes = Inr ownership \<and>
        fst ` set ownership = {ns. contributors author_changes ns \<noteq> []} \<and>
        (\<forall>(ns, e) \<in> set ownership.
           all_authors e = contributors author_changes ns \<and>
           (primary_author e, primary_lines e) \<in> set (contributors author_changes ns) \<and>
           (\<forall>(a, v) \<in> set (contributors author_changes ns). v \<le> primary_lines e) \<and>
           total_lines e = sum_list (map snd (contributors author_changes ns)) \<and>
           (if total_lines e = 0 then ownership_percent e = Finite 0
            else percent_expr (primary_lines e) (total_lines e) = Inr (ownership_percent e) \<and>
                 (\<exists>r. ownership_percent e = Finite r \<and>
                    \<bar>r - of_int (primary_lines e) / of_int (total_lines e) * 100\<bar> \<le>
                      2 powi (- 45))))) \<and>
     calculate_ownership [(''A'', [(''X'', ''a.cs'', 300)]), (''B'', [(''X'', ''b.cs'', 50)])] =
       Inr [(''X'', \<lparr>primary_author = ''A'', primary_lines = 300, total_lines = 350,
                     ownership_percent = Finite (6031606643799771 / 2 ^ 46),
                     all_authors = [(''A'', 300), (''B'', 50)]\<rparr>)] \<and>
     \<bar>6031606643799771 / 2 ^ 46 - 857 / 10\<bar> < (1 / 20 :: rat)"
proof -
  from calculate_ownership_props [OF assms] obtain ownership where
    o: "calculate_ownership author_changes = Inr ownership" and
    k: "fst ` set ownership = {ns. contributors author_changes ns \<noteq> []}" and
    p: "\<forall>(ns, e) \<in> set ownership.
        all_authors e = contributors author_changes ns \<and>
        (primary_author e, primary_lines e) \<in> set (contributors author_changes ns) \<and>
        (\<forall>(a, v) \<in> set (contributors author_changes ns). v \<le> primary_lines e) \<and>
        total_lines e = sum_list (map snd (contributors author_changes ns)) \<and>
        (if total_lines e = 0 then ownership_percent e = Finite 0
         else \<exists>r. ownership_percent e = Finite r \<and>
                \<bar>r - of_int (primary_lines e) / of_int (total_lines e) * 100\<bar> \<le> 2 powi (- 45))"
    by blast
  from calculate_ownership_general [OF assms(1) o] have
    g: "\<forall>(ns, e) \<in> set ownership.
        (if total_lines e > 0
         then percent_expr (primary_lines e) (total_lines e) = Inr (ownership_percent e)
         else ownership_percent e = Finite 0)"
    by fast
  have each: "all_authors e = contributors author_changes ns \<and>
        (primary_author e, primary_lines e) \<in> set (contributors author_changes ns) \<and>
        (\<forall>(a, v) \<in> set (contributors author_changes ns). v \<le> primary_lines e) \<and>
        total_lines e = sum_list (map snd (contributors author_changes ns)) \<and>
        (if total_lines e = 0 then ownership_percent e = Finite 0
         else percent_expr (primary_lines e) (total_lines e) = Inr (ownership_percent e) \<and>
              (\<exists>r. ownership_percent e = Finite r \<and>
                 \<bar>r - of_int (primary_lines e) / of_int (total_lines e) * 100\<bar> \<le>
                   2 powi (- 45)))"
    if "(ns, e) \<in> set ownership" for ns e
  proof -
    from p that have
      pe: "all_authors e = contributors author_changes ns \<and>
        (primary_author e, primary_lines e) \<in> set (contributors author_changes ns) \<and>
        (\<forall>(a, v) \<in> set (contributors author_changes ns). v \<le> primary_lines e) \<and>
        total_lines e = sum_list (map snd (contributors author_changes ns))" and
      pc: "if total_lines e = 0 then ownership_percent e = Finite 0
         else \<exists>r. ownership_percent e = Finite r \<and>
                \<bar>r - of_int (primary_lines e) / of_int (total_lines e) * 100\<bar> \<le> 2 powi (- 45)"
      by fast+
    from g that have
      ge: "if total_lines e > 0
         then percent_expr (primary_lines e) (total_lines e) = Inr (ownership_percent e)
         else ownership_percent e = Finite 0"
      by fast
    have "\<forall>x \<in> set (contributors author_changes ns). 0 \<le> snd x"
      by (rule contributors_nonneg [OF assms(2)])
    then have "0 \<le> sum_list (map snd (contributors author_changes ns))"
      by (intro sum_list_nonneg) auto
    with pe have t: "0 \<le> total_lines e" by simp
    show ?thesis
    proof (cases "total_lines e = 0")
      case True
      with pe pc show ?thesis by simp
    next
      case False
      with t have "total_lines e > 0" by simp
      with ge have "percent_expr (primary_lines e) (total_lines e) = Inr (ownership_percent e)"
        by simp
      with pe pc False show ?thesis by simp
    qed
  qed
  have all: "\<forall>(ns, e) \<in> set ownership.
        all_authors e = contributors author_changes ns \<and>
        (primary_author e, primary_lines e) \<in> set (contributors author_changes ns) \<and>
        (\<forall>(a, v) \<in> set (contributors author_changes ns). v \<le> primary_lines e) \<and>
        total_lines e = sum_list (map snd (contributors author_changes ns)) \<and>
        (if total_lines e = 0 then ownership_percent e = Finite 0
         else percent_expr (primary_lines e) (total_lines e) = Inr (ownership_percent e) \<and>
              (\<exists>r. ownership_percent e = Finite r \<and>
                 \<bar>r - of_int (primary_lines e) / of_int (total_lines e) * 100\<bar> \<le>
                   2 powi (- 45)))"
  proof (intro ballI)
    fix x assume x: "x \<in> set ownership"
    obtain ns e where xe: "x = (ns, e)" by (cases x) auto
    have xin: "(ns, e) \<in> set ownership" using x xe by simp
    show "case x of (ns, e) \<Rightarrow>
        all_authors e = contributors author_changes ns \<and>
        (primary_author e, primary_lines e) \<in> set (contributors author_changes ns) \<and>
        (\<forall>(a, v) \<in> set (contributors author_changes ns). v \<le> primary_lines e) \<and>
        total_lines e = sum_list (map snd (contributors author_changes ns)) \<and>
        (if total_lines e = 0 then ownership_percent e = Finite 0
         else percent_expr (primary_lines e) (total_lines e) = Inr (ownership_percent e) \<and>
              (\<exists>r. ownership_percent e = Finite r \<and>
                 \<bar>r - of_int (primary_lines e) / of_int (total_lines e) * 100\<bar> \<le>
                   2 powi (- 45)))"
      unfolding xe prod.case by (rule each [OF xin])
  qed
  from o k all have "\<exists>ownership. calculate_ownership author_changes = Inr ownership \<and>
        fst ` set ownership = {ns. contributors author_changes ns \<noteq> []} \<and>
        (\<forall>(ns, e) \<in> set ownership.
           all_authors e = contributors author_changes ns \<and>
           (primary_author e, primary_lines e) \<in> set (contributors author_changes ns) \<and>
           (\<forall>(a, v) \<in> set (contributors author_changes ns). v \<le> primary_lines e) \<and>
           total_lines e = sum_list (map snd (contributors author_changes ns)) \<and>
           (if total_lines e = 0 then ownership_percent e = Finite 0
            else percent_expr (primary_lines e) (total_lines e) = Inr (ownership_percent e) \<and>
                 (\<exists>r. ownership_percent e = Finite r \<and>
                    \<bar>r - of_int (primary_lines e) / of_int (total_lines e) * 100\<bar> \<le>
                      2 powi (- 45))))"
    by blast
  with ownership_example percent_close show ?thesis by (intro conjI)
qed

theorem calculate_ownership_primary_witness:
  "distinct (map fst [(''A'', [(''X'', ''a.cs'', 300 :: int)]), (''B'', [(''X'', ''b.cs'', 50)])]) \<and>
   (\<exists>ownership.
      calculate_ownership [(''A'', [(''X'', ''a.cs'', 300)]), (''B'', [(''X'', ''b.cs'', 50)])] =
        Inr ownership \<and>
      fst ` set ownership =
        {ns. contributors [(''A'', [(''X'', ''a.cs'', 300)]), (''B'', [(''X'', ''b.cs'', 50)])] ns \<noteq> []}) \<and>
   contributors [(''A'', [(''X'', ''a.cs'', 300)]), (''B'', [(''X'', ''b.cs'', 50)])] ''X'' =
     [(''A'', 300), (''B'', 50)]"
proof -
  have d: "distinct (map fst [(''A'', [(''X'', ''a.cs'', 300 :: int)]), (''B'', [(''X'', ''b.cs'', 50)])])"
    by simp
  have n: "\<forall>(author, changes) \<in> set [(''A'', [(''X'', ''a.cs'', 300 :: int)]), (''B'', [(''X'', ''b.cs'', 50)])].
      \<forall>(n, f, l) \<in> set changes. 0 \<le> l"
    by simp
  have c: "contributors [(''A'', [(''X'', ''a.cs'', 300)]), (''B'', [(''X'', ''b.cs'', 50)])] ''X'' =
     [(''A'', 300), (''B'', 50)]"
    by (simp add: contributors_def lines_in_def)
  from calculate_ownership_primary [OF d n] d c show ?thesis by blast
qed

subsection \<open>The history line parser\<close>

lemma parse_numstat_line_iff:
  "parse_numstat_line L line = Some (a, d, p) \<longleftrightarrow>
     (\<exists>fa fd. split_on TAB (py_strip line) = [fa, fd, p] \<and> fa \<noteq> ''-'' \<and> fd \<noteq> ''-'' \<and>
        py_int L fa = Inr a \<and> py_int L fd = Inr d)"
  by (auto simp: parse_numstat_line_def split: list.splits sum.splits if_splits)

lemma hd_dropWhile_mem: "dropWhile P s \<noteq> [] \<Longrightarrow> hd (dropWhile P s) \<in> set s"
  by (metis hd_in_set set_dropWhileD)

lemma py_int_no_minus:
  assumes "py_int L s = Inr n" "CHR ''-'' \<notin> set s"
  shows "0 \<le> n"
proof -
  have "\<not> (dropWhile int_space s \<noteq> [] \<and> hd (dropWhile int_space s) = CHR ''-'')"
  proof
    assume a: "dropWhile int_space s \<noteq> [] \<and> hd (dropWhile int_space s) = CHR ''-''"
    then have "hd (dropWhile int_space s) \<in> set s" by (intro hd_dropWhile_mem) simp
    with a assms(2) show False by simp
  qed
  then show ?thesis
    using assms(1) by (auto simp: py_int_def Let_def split: if_splits)
qed

lemma no_adjacent_underscores:
  "CHR ''_'' \<notin> set s \<Longrightarrow> \<not> adjacent_underscores s"
  by (induction s rule: adjacent_underscores.induct) auto

lemma is_digit_not_special:
  "is_digit c \<Longrightarrow> \<not> int_space c \<and> c \<noteq> CHR ''_'' \<and> c \<noteq> CHR ''-'' \<and> c \<noteq> CHR ''+''"
  by (auto simp: is_digit_def int_space_def Let_def)

lemma py_int_digits:
  assumes "s \<noteq> []" "list_all is_digit s" "L = 0 \<or> length s \<le> L"
  shows "py_int L s = Inr (int (digits_value s))"
proof -
  from assms(1) obtain c cs where s: "s = c # cs" by (cases s) auto
  have all: "\<forall>x \<in> set s. is_digit x" using assms(2) by (simp add: list_all_iff)
  then have c: "is_digit c" by (simp add: s)
  have d1: "dropWhile int_space s = s" using c is_digit_not_special [of c] by (simp add: s)
  have sign: "\<not> (hd s = CHR ''-'' \<or> hd s = CHR ''+'')"
    using c is_digit_not_special [of c] by (simp add: s)
  have tw: "takeWhile digit_or_underscore s = s"
    using all by (simp add: digit_or_underscore_def)
  have dw: "dropWhile digit_or_underscore s = []"
    using all by (simp add: digit_or_underscore_def)
  have f: "filter is_digit s = s" using all by simp
  have us: "CHR ''_'' \<notin> set s" using all is_digit_not_special by blast
  have l: "last s \<noteq> CHR ''_''" using us assms(1) last_in_set by metis
  have h: "hd s \<noteq> CHR ''_''" using c is_digit_not_special [of c] by (simp add: s)
  show ?thesis
    using assms(1,3) sign l h no_adjacent_underscores [OF us]
    by (auto simp: py_int_def Let_def d1 tw dw f)
qed

lemma ex1:
  "parse_numstat_line 4300 (''45'' @ [TAB] @ ''23'' @ [TAB] @ ''app/services/UserService.cs'') =
     Some (45, 23, ''app/services/UserService.cs'')"
  by (simp add: parse_numstat_line_def py_strip_def py_isspace_def TAB_def py_int_def
      int_space_def is_digit_def digit_or_underscore_def digits_value_def Let_def)

lemma ex2:
  "parse_numstat_line 4300 (''-'' @ [TAB] @ ''-'' @ [TAB] @ ''app/x.png'') = None"
  by (simp add: parse_numstat_line_def py_strip_def py_isspace_def TAB_def Let_def)

lemma cex1:
  "split_on TAB (''45'' @ [TAB] @ ''23'' @ [TAB]) = [''45'', ''23'', ''''] \<and>
   py_int 4300 ''45'' = Inr 45 \<and> py_int 4300 ''23'' = Inr 23 \<and>
   parse_numstat_line 4300 (''45'' @ [TAB] @ ''23'' @ [TAB]) = None"
  by (simp add: parse_numstat_line_def py_strip_def py_isspace_def TAB_def py_int_def
      int_space_def is_digit_def digit_or_underscore_def digits_value_def Let_def)

lemma cex2:
  "parse_numstat_line 4300 (''-5'' @ [TAB] @ ''3'' @ [TAB] @ ''x.cs'') = Some (- 5, 3, ''x.cs'')"
  by (simp add: parse_numstat_line_def py_strip_def py_isspace_def TAB_def py_int_def
      int_space_def is_digit_def digit_or_underscore_def digits_value_def Let_def)

text \<open>
  C2 (as stated): the line \<open>"45\t23\t"\<close> splits on the tab character into exactly three
  fields, neither count field is \<open>-\<close> and both parse as non-negative integers, yet the
  code strips the line first and returns nothing; and \<open>"-5\t3\tx.cs"\<close> gives a record with
  a negative count.
\<close>

theorem parse_numstat_line_counterexample:
  "split_on TAB (''45'' @ [TAB] @ ''23'' @ [TAB]) = [''45'', ''23'', ''''] \<and>
   py_int 4300 ''45'' = Inr 45 \<and> py_int 4300 ''23'' = Inr 23 \<and>
   parse_numstat_line 4300 (''45'' @ [TAB] @ ''23'' @ [TAB]) = None \<and>
   parse_numstat_line 4300 (''-5'' @ [TAB] @ ''3'' @ [TAB] @ ''x.cs'') = Some (- 5, 3, ''x.cs'')"
  using cex1 cex2 by simp

text \<open>
  C2 (amended): \<open>parse_numstat_line\<close> returns \<open>(added, deleted, path)\<close> if and only if
  the line, stripped of leading and trailing whitespace, splits on the tab character into
  exactly three fields, neither count field is the single character \<open>-\<close>, and \<open>int()\<close>
  accepts both count fields (whitespace around, an optional sign, decimal digits); in
  every other case it returns nothing. A count whose field has no minus sign is
  non-negative, and a field of digits only (within the interpreter's limit) is accepted.
  \<open>"45\t23\tapp/services/UserService.cs"\<close> gives (45, 23, the path) and
  \<open>"-\t-\tapp/x.png"\<close> gives nothing.
\<close>

theorem parse_numstat_line_contract:
  "(parse_numstat_line L line = Some (a, d, p) \<longleftrightarrow>
      (\<exists>fa fd. split_on TAB (py_strip line) = [fa, fd, p] \<and> fa \<noteq> ''-'' \<and> fd \<noteq> ''-'' \<and>
         py_int L fa = Inr a \<and> py_int L fd = Inr d)) \<and>
   (py_int L f = Inr n \<and> CHR ''-'' \<notin> set f \<longrightarrow> 0 \<le> n) \<and>
   (f \<noteq> [] \<and> list_all is_digit f \<and> (L = 0 \<or> length f \<le> L) \<longrightarrow>
      py_int L f = Inr (int (digits_value f))) \<and>
   parse_numstat_line 4300 (''45'' @ [TAB] @ ''23'' @ [TAB] @ ''app/services/UserService.cs'') =
     Some (45, 23, ''app/services/UserService.cs'') \<and>
   parse_numstat_line 4300 (''-'' @ [TAB] @ ''-'' @ [TAB] @ ''app/x.png'') = None"
  using parse_numstat_line_iff [of L line a d p] py_int_no_minus [of L f n]
    py_int_digits [of f L] ex1 ex2
  by blast

theorem parse_numstat_line_contract_witness:
  "py_int 4300 ''45'' = Inr 45 \<and> CHR ''-'' \<notin> set ''45'' \<and> list_all is_digit ''45'' \<and>
   parse_numstat_line 4300 (''45'' @ [TAB] @ ''23'' @ [TAB] @ ''app/services/UserService.cs'') =
     Some (45, 23, ''app/services/UserService.cs'')"
  using parse_numstat_line_contract [of 4300 _ _ _ _ "''45''" 45]
  by (simp add: digits_value_def is_digit_def)

subsection \<open>The namespace extractor\<close>

lemma re_search_found:
  "re_search p b a = Some (i, g) \<Longrightarrow>
     \<exists>k \<le> length a. i = length b + k \<and>
       (\<exists>b' a'. rmatch p (rev (take k a) @ b) (drop k a) [] = Some (g, b', a')) \<and>
       (\<forall>j < k. rmatch p (rev (take j a) @ b) (drop j a) [] = None)"
proof (induction a arbitrary: b)
  case Nil
  then show ?case by (auto split: option.splits)
next
  case (Cons x a)
  show ?case
  proof (cases "rmatch p b (x # a) []")
    case (Some r)
    obtain g' b' a' where r: "r = (g', b', a')" by (cases r) auto
    from Cons.prems Some have "i = length b" "g = g'" by (simp_all add: r)
    then show ?thesis using Some r by (intro exI [of _ 0]) simp
  next
    case None
    with Cons.prems have "re_search p (x # b) a = Some (i, g)" by simp
    from Cons.IH [OF this] obtain k where
      k: "k \<le> length a" "i = length (x # b) + k"
        "\<exists>b' a'. rmatch p (rev (take k a) @ x # b) (drop k a) [] = Some (g, b', a')"
        "\<forall>j < k. rmatch p (rev (take j a) @ x # b) (drop j a) [] = None"
      by blast
    have "\<forall>j < Suc k. rmatch p (rev (take j (x # a)) @ b) (drop j (x # a)) [] = None"
    proof (intro allI impI)
      fix j assume "j < Suc k"
      show "rmatch p (rev (take j (x # a)) @ b) (drop j (x # a)) [] = None"
      proof (cases j)
        case 0
        then show ?thesis using None by simp
      next
        case (Suc j')
        then show ?thesis using k(4) \<open>j < Suc k\<close> by simp
      qed
    qed
    then show ?thesis using k by (intro exI [of _ "Suc k"]) simp
  qed
qed

lemma re_search_none:
  "re_search p b a = None \<Longrightarrow> j \<le> length a \<Longrightarrow>
     rmatch p (rev (take j a) @ b) (drop j a) [] = None"
proof (induction a arbitrary: b j)
  case Nil
  then show ?case by (auto split: option.splits)
next
  case (Cons x a)
  from Cons.prems(1) have n: "rmatch p b (x # a) [] = None" and
    r: "re_search p (x # b) a = None"
    by (auto split: option.splits)
  show ?case
  proof (cases j)
    case 0
    then show ?thesis using n by simp
  next
    case (Suc j')
    then show ?thesis using Cons.IH [OF r, of j'] Cons.prems(2) by simp
  qed
qed

lemma search_leftmost:
  "re_search p [] s = Some (i, g) \<longleftrightarrow>
     i \<le> length s \<and> (\<exists>e. match_at p s i = Some (g, e)) \<and> (\<forall>j < i. match_at p s j = None)"
proof
  assume "re_search p [] s = Some (i, g)"
  from re_search_found [OF this] show
    "i \<le> length s \<and> (\<exists>e. match_at p s i = Some (g, e)) \<and> (\<forall>j < i. match_at p s j = None)"
    by (auto simp: match_at_def)
next
  assume a: "i \<le> length s \<and> (\<exists>e. match_at p s i = Some (g, e)) \<and>
    (\<forall>j < i. match_at p s j = None)"
  show "re_search p [] s = Some (i, g)"
  proof (cases "re_search p [] s")
    case None
    from re_search_none [OF None, of i] a show ?thesis by (auto simp: match_at_def)
  next
    case (Some r)
    obtain i' g' where r: "r = (i', g')" by (cases r) auto
    from re_search_found [OF Some [unfolded r]] have
      f: "i' \<le> length s" "\<exists>e. match_at p s i' = Some (g', e)" "\<forall>j < i'. match_at p s j = None"
      by (auto simp: match_at_def)
    have "\<not> i' < i" using a f(2) by auto
    moreover have "\<not> i < i'" using a f(3) by auto
    ultimately have "i' = i" by simp
    then have "g' = g" using a f(2) by auto
    then show ?thesis using Some r \<open>i' = i\<close> by simp
  qed
qed

lemma search_nowhere:
  "re_search p [] s = None \<longleftrightarrow> (\<forall>j \<le> length s. match_at p s j = None)"
proof
  assume n: "re_search p [] s = None"
  show "\<forall>j \<le> length s. match_at p s j = None"
    using re_search_none [OF n] by (simp add: match_at_def)
next
  assume a: "\<forall>j \<le> length s. match_at p s j = None"
  show "re_search p [] s = None"
  proof (cases "re_search p [] s")
    case None
    then show ?thesis .
  next
    case (Some r)
    obtain i g where r: "r = (i, g)" by (cases r) auto
    from Some have "re_search p [] s = Some (i, g)" by (simp add: r)
    then have "i \<le> length s \<and> (\<exists>e. match_at p s i = Some (g, e))"
      by (simp add: search_leftmost)
    with a show ?thesis by auto
  qed
qed

lemmas namespace_defs = extract_namespace_def extract_csharp_namespace_def
  extract_vbnet_namespace_def remove_comments_def
  re_sub_empty_def CSHARP_FILE_SCOPED_def CSHARP_TRADITIONAL_def VBNET_NAMESPACE_def
  LINE_COMMENT_def BLOCK_COMMENT_def VB_COMMENT_def py_strip_def py_isspace_def py_isword_def
  endswith_def NL_def match_at_def Let_def

lemma nested_example:
  "extract_csharp_namespace
     (''namespace Outer.Namespace'' @ [NL] @ ''{'' @ [NL] @ ''  namespace Inner'' @ [NL] @
      ''  {'' @ [NL] @ ''  }'' @ [NL] @ ''}'' @ [NL]) = ''Outer.Namespace'' \<and>
   extract_namespace
     (''namespace Outer.Namespace'' @ [NL] @ ''{'' @ [NL] @ ''  namespace Inner'' @ [NL] @
      ''  {'' @ [NL] @ ''  }'' @ [NL] @ ''}'' @ [NL]) ''file.cs'' = ''Outer.Namespace''"
  by (simp add: namespace_defs)

lemma same_line_example:
  "extract_namespace
     (''using System; namespace Outer {'' @ [NL] @ ''  namespace Inner {'' @ [NL] @ ''  }'' @
      [NL] @ ''}'') ''file.cs'' = ''Inner''"
  by (simp add: namespace_defs)

lemma spaced_name_example:
  "extract_namespace
     (''namespace Outer . Core {'' @ [NL] @ ''  namespace Inner {'' @ [NL] @ ''  }'' @ [NL] @
      ''}'') ''file.cs'' = ''Inner''"
  by (simp add: namespace_defs)

text \<open>
  C4: of nested namespaces the outermost is to be reported and a nested inner one never
  (the unit test \<open>test_nested_namespaces_returns_outermost\<close> states it: "nested
  namespaces return the outermost one"). In this text the declaration of \<open>Outer\<close>
  follows a \<open>using\<close> directive on its line and \<open>Inner\<close> is nested in it. Both
  patterns begin with \<open>^\s*namespace\<close>, so they see a declaration only where nothing but
  whitespace stands before it on its line: there is no comment to remove, the
  semicolon-terminated form matches nowhere, the brace-delimited form does not match at
  the declaration of \<open>Outer\<close> (offset 14) and matches first at the line of \<open>Inner\<close>
  (offset 32), and the nested \<open>Inner\<close> is returned.
\<close>

theorem extract_namespace_nested_inner:
  "extract_namespace
     (''using System; namespace Outer {'' @ [NL] @ ''  namespace Inner {'' @ [NL] @ ''  }'' @
      [NL] @ ''}'') ''file.cs'' = ''Inner'' \<and>
   remove_comments
     (''using System; namespace Outer {'' @ [NL] @ ''  namespace Inner {'' @ [NL] @ ''  }'' @
      [NL] @ ''}'') ''file.cs'' =
     ''using System; namespace Outer {'' @ [NL] @ ''  namespace Inner {'' @ [NL] @ ''  }'' @
      [NL] @ ''}'' \<and>
   re_search CSHARP_FILE_SCOPED []
     (''using System; namespace Outer {'' @ [NL] @ ''  namespace Inner {'' @ [NL] @ ''  }'' @
      [NL] @ ''}'') = None \<and>
   match_at CSHARP_TRADITIONAL
     (''using System; namespace Outer {'' @ [NL] @ ''  namespace Inner {'' @ [NL] @ ''  }'' @
      [NL] @ ''}'') 14 = None \<and>
   re_search CSHARP_TRADITIONAL []
     (''using System; namespace Outer {'' @ [NL] @ ''  namespace Inner {'' @ [NL] @ ''  }'' @
      [NL] @ ''}'') = Some (32, ''Inner'')"
  by (simp add: namespace_defs)

text \<open>
  What holds of C4: \<open>_extract_csharp_namespace\<close> searches the semicolon-terminated
  form in the whole text first, then the brace-delimited form. If the semicolon form
  matches anywhere, the name of its leftmost match is returned; otherwise, if the brace
  form matches anywhere, the name of its leftmost match; otherwise \<open>(global)\<close>. Nested
  \<open>Outer.Namespace { namespace Inner { ... } }\<close>, each declaration on a line of its own,
  gives \<open>Outer.Namespace\<close>.
\<close>

lemma extract_csharp_search_order:
  "(i \<le> length s \<and> match_at CSHARP_FILE_SCOPED s i = Some (g, e) \<and>
      (\<forall>j < i. match_at CSHARP_FILE_SCOPED s j = None) \<longrightarrow>
      extract_csharp_namespace s = g) \<and>
   ((\<forall>j \<le> length s. match_at CSHARP_FILE_SCOPED s j = None) \<and>
      i \<le> length s \<and> match_at CSHARP_TRADITIONAL s i = Some (g, e) \<and>
      (\<forall>j < i. match_at CSHARP_TRADITIONAL s j = None) \<longrightarrow>
      extract_csharp_namespace s = g) \<and>
   ((\<forall>j \<le> length s. match_at CSHARP_FILE_SCOPED s j = None) \<and>
      (\<forall>j \<le> length s. match_at CSHARP_TRADITIONAL s j = None) \<longrightarrow>
      extract_csharp_namespace s = ''(global)'') \<and>
   extract_csharp_namespace
     (''namespace Outer.Namespace'' @ [NL] @ ''{'' @ [NL] @ ''  namespace Inner'' @ [NL] @
      ''  {'' @ [NL] @ ''  }'' @ [NL] @ ''}'' @ [NL]) = ''Outer.Namespace'' \<and>
   extract_namespace
     (''namespace Outer.Namespace'' @ [NL] @ ''{'' @ [NL] @ ''  namespace Inner'' @ [NL] @
      ''  {'' @ [NL] @ ''  }'' @ [NL] @ ''}'' @ [NL]) ''file.cs'' = ''Outer.Namespace''"
proof -
  have fs: "extract_csharp_namespace s = g"
    if "i \<le> length s" "match_at CSHARP_FILE_SCOPED s i = Some (g, e)"
       "\<forall>j < i. match_at CSHARP_FILE_SCOPED s j = None"
  proof -
    have "re_search CSHARP_FILE_SCOPED [] s = Some (i, g)"
      using that by (subst search_leftmost) auto
    then show ?thesis by (simp add: extract_csharp_namespace_def)
  qed
  have tr: "extract_csharp_namespace s = g"
    if "\<forall>j \<le> length s. match_at CSHARP_FILE_SCOPED s j = None"
       "i \<le> length s" "match_at CSHARP_TRADITIONAL s i = Some (g, e)"
       "\<forall>j < i. match_at CSHARP_TRADITIONAL s j = None"
  proof -
    have "re_search CSHARP_FILE_SCOPED [] s = None"
      using that(1) by (subst search_nowhere)
    moreover have "re_search CSHARP_TRADITIONAL [] s = Some (i, g)"
      using that(2-4) by (subst search_leftmost) auto
    ultimately show ?thesis by (simp add: extract_csharp_namespace_def)
  qed
  have gl: "extract_csharp_namespace s = ''(global)''"
    if "\<forall>j \<le> length s. match_at CSHARP_FILE_SCOPED s j = None"
       "\<forall>j \<le> length s. match_at CSHARP_TRADITIONAL s j = None"
  proof -
    have "re_search CSHARP_FILE_SCOPED [] s = None"
      using that(1) by (subst search_nowhere)
    moreover have "re_search CSHARP_TRADITIONAL [] s = None"
      using that(2) by (subst search_nowhere)
    ultimately show ?thesis by (simp add: extract_csharp_namespace_def)
  qed
  from fs tr gl nested_example show ?thesis by blast
qed

lemma brace_form_example:
  "re_search CSHARP_FILE_SCOPED [] ''namespace A{'' = None \<and>
   match_at CSHARP_TRADITIONAL ''namespace A{'' 0 = Some (''A'', 12)"
  by (simp add: namespace_defs)

lemma extract_csharp_search_order_instance:
  "match_at CSHARP_TRADITIONAL ''namespace A{'' 0 = Some (''A'', 12) \<and>
   extract_csharp_namespace ''namespace A{'' = ''A''"
proof -
  have "re_search CSHARP_FILE_SCOPED [] ''namespace A{'' = None"
    using brace_form_example by (rule conjunct1)
  then have n: "\<forall>j \<le> length ''namespace A{''. match_at CSHARP_FILE_SCOPED ''namespace A{'' j = None"
    by (simp only: search_nowhere)
  have m: "match_at CSHARP_TRADITIONAL ''namespace A{'' 0 = Some (''A'', 12)"
    using brace_form_example by (rule conjunct2)
  from extract_csharp_search_order [of 0 "''namespace A{''" "''A''" 12] n m
  show ?thesis by simp
qed

text \<open>
  C5: comments are stripped before matching, so a declaration inside a comment must not
  be found. In this file, which is one block comment, the terminator \<open>*/\<close> follows \<open>//\<close>
  on its line: the line comments are removed first and take the terminator with them, the
  block comment then stays, and the commented-out declaration is returned.
\<close>

theorem extract_namespace_block_comment:
  "extract_namespace
     (''/*'' @ [NL] @ ''namespace Commented.Out;'' @ [NL] @ ''// end */'' @ [NL]) ''file.cs'' =
     ''Commented.Out'' \<and>
   remove_comments
     (''/*'' @ [NL] @ ''namespace Commented.Out;'' @ [NL] @ ''// end */'' @ [NL]) ''file.cs'' =
     ''/*'' @ [NL] @ ''namespace Commented.Out;'' @ [NL] @ [NL]"
  by (simp add: namespace_defs)

text \<open>What holds of C5: the sentinel for blank text and for other file types, and the examples.\<close>

lemma extract_namespace_sentinel:
  "(list_all py_isspace content \<longrightarrow> extract_namespace content filepath = ''(global)'') \<and>
   (\<not> endswith filepath ''.cs'' \<and> \<not> endswith filepath ''.vb'' \<longrightarrow>
      extract_namespace content filepath = ''(global)'')"
proof -
  have "py_strip content = []" if "list_all py_isspace content"
  proof -
    from that have "\<forall>x \<in> set content. py_isspace x" by (simp add: list_all_iff)
    then have d: "dropWhile py_isspace content = []" by simp
    show ?thesis unfolding py_strip_def d by simp
  qed
  then show ?thesis by (simp add: extract_namespace_def Let_def)
qed

lemma extract_namespace_examples:
  "extract_namespace [] ''file.cs'' = ''(global)'' \<and>
   extract_namespace ''// namespace Commented.Out'' ''file.cs'' = ''(global)'' \<and>
   extract_namespace
     (''// namespace Commented.Out'' @ [NL] @ ''/* namespace Also.Commented */'' @ [NL] @
      ''namespace Real.Namespace'' @ [NL] @ ''{'' @ [NL] @ ''}'') ''file.cs'' =
     ''Real.Namespace''"
  by (simp add: namespace_defs)

subsection \<open>Formats and filters\<close>

lemma sum_ones_length: "(\<Sum>x \<leftarrow> xs. (1::int)) = int (length xs)"
  by (induction xs) auto

lemma sum_pair_ones_length: "(\<Sum>(a, b) \<leftarrow> xs. (1::int)) = int (length xs)"
  by (induction xs) auto

text \<open>
  C9 (as stated): below the warning tier no glyph is shown. The code returns the check
  mark there, a non-empty string.
\<close>

theorem get_indicator_no_glyph_counterexample:
  "get_indicator 150 = [0x2713] \<and> get_indicator 150 \<noteq> []"
  by (simp add: get_indicator_def HOTSPOT_THRESHOLD_def WARNING_THRESHOLD_def CHECK_MARK_def)

text \<open>
  C9 (amended): the severity glyph has three tiers. The fire glyph is returned exactly
  for a total above 1000, the warning sign exactly for a total above 500 and at most
  1000, and the check mark exactly for a total of at most 500. The summary line counts as
  hotspots exactly the rows that get the fire glyph and as warnings exactly the rows that
  get the warning sign.
\<close>

theorem get_indicator_tiers:
  "(get_indicator n = FIRE \<longleftrightarrow> n > 1000) \<and>
   (get_indicator n = WARNING_SIGN \<longleftrightarrow> 500 < n \<and> n \<le> 1000) \<and>
   (get_indicator n = CHECK_MARK \<longleftrightarrow> n \<le> 500) \<and>
   summary_hotspots tot data = int (length (filter (\<lambda>(ns, m). tot m > 1000) data)) \<and>
   summary_hotspots tot data =
     int (length (filter (\<lambda>(ns, m). get_indicator (tot m) = FIRE) data)) \<and>
   summary_warnings tot data =
     int (length (filter (\<lambda>(ns, m). 500 < tot m \<and> tot m \<le> 1000) data)) \<and>
   summary_warnings tot data =
     int (length (filter (\<lambda>(ns, m). get_indicator (tot m) = WARNING_SIGN) data))"
proof -
  have fire: "get_indicator k = FIRE \<longleftrightarrow> k > 1000" for k
    by (simp add: get_indicator_def HOTSPOT_THRESHOLD_def WARNING_THRESHOLD_def
        FIRE_def WARNING_SIGN_def CHECK_MARK_def)
  have warn: "get_indicator k = WARNING_SIGN \<longleftrightarrow> 500 < k \<and> k \<le> 1000" for k
    by (simp add: get_indicator_def HOTSPOT_THRESHOLD_def WARNING_THRESHOLD_def
        FIRE_def WARNING_SIGN_def CHECK_MARK_def)
  have ok: "get_indicator k = CHECK_MARK \<longleftrightarrow> k \<le> 500" for k
    by (simp add: get_indicator_def HOTSPOT_THRESHOLD_def WARNING_THRESHOLD_def
        FIRE_def WARNING_SIGN_def CHECK_MARK_def)
  have hot: "summary_hotspots tot data = int (length (filter (\<lambda>(ns, m). tot m > 1000) data))"
    by (simp add: summary_hotspots_def sum_pair_ones_length)
  have wrn: "summary_warnings tot data =
      int (length (filter (\<lambda>(ns, m). 500 < tot m \<and> tot m \<le> 1000) data))"
    by (simp add: summary_warnings_def sum_pair_ones_length)
  show ?thesis
    using fire [of n] warn [of n] ok [of n] hot wrn by (simp add: fire warn)
qed

text \<open>
  C8: the threshold filter, in the legacy mode (\<open>filter_by_threshold\<close>) and in the
  enhanced mode (the comprehension of \<open>analyze\<close>), keeps a namespace exactly when its total
  is at least the threshold, so a total equal to the threshold is kept. The filter changes
  neither the entries nor their order.
\<close>

theorem filter_by_threshold_inclusive:
  "((ns, m) \<in> set (filter_by_threshold aggregated t) \<longleftrightarrow>
      (ns, m) \<in> set aggregated \<and> lines_changed m \<ge> t) \<and>
   ((ns, m') \<in> set (filter_by_total aggregated' t) \<longleftrightarrow>
      (ns, m') \<in> set aggregated' \<and> ns_total m' \<ge> t) \<and>
   filter_by_threshold [(ns, m\<lparr>lines_changed := t\<rparr>)] t = [(ns, m\<lparr>lines_changed := t\<rparr>)] \<and>
   filter_by_total [(ns, m'\<lparr>ns_total := t\<rparr>)] t = [(ns, m'\<lparr>ns_total := t\<rparr>)] \<and>
   subseq (filter_by_threshold aggregated t) aggregated \<and>
   subseq (filter_by_total aggregated' t) aggregated'"
  by (auto simp: filter_by_threshold_def filter_by_total_def)

subsection \<open>The orchestrator\<close>














end
